theory Spec2Isabelle
  imports Main
begin

section \<open>Python strings\<close>

text \<open>
  A Python \<open>str\<close> is a sequence of code points. It is modelled as a \<open>char list\<close> with
  one HOL \<open>char\<close> per code point, so \<open>length\<close> is Python's \<open>len\<close>. A HOL \<open>char\<close>
  has 256 values: the model covers the names whose code points are below 256 (ASCII and
  Latin-1). On that range the character classes of \<open>re\<close> and \<open>str.strip\<close> are the
  ones below: the only decimal digits are \<open>0\<close> to \<open>9\<close>, and case-insensitive matching
  of an ASCII letter matches its two ASCII cases only.
\<close>

definition is_space :: "char \<Rightarrow> bool" where
  \<comment> \<open>\<open>str.isspace\<close>, the class \<open>\s\<close> and the characters \<open>strip()\<close> removes\<close>
  "is_space c = (c \<in> set [CHR 0x09, CHR 0x0A, CHR 0x0B, CHR 0x0C, CHR 0x0D,
                          CHR 0x1C, CHR 0x1D, CHR 0x1E, CHR 0x1F, CHR 0x20,
                          CHR 0x85, CHR 0xA0])"

definition is_digit :: "char \<Rightarrow> bool" where
  \<comment> \<open>the class \<open>\d\<close>\<close>
  "is_digit c = (c \<in> set ''0123456789'')"

definition is_upper_AZ :: "char \<Rightarrow> bool" where
  \<comment> \<open>the class \<open>[A-Z]\<close>\<close>
  "is_upper_AZ c = (c \<in> set ''ABCDEFGHIJKLMNOPQRSTUVWXYZ'')"

definition is_lower_az :: "char \<Rightarrow> bool" where
  \<comment> \<open>the class \<open>[a-z]\<close>\<close>
  "is_lower_az c = (c \<in> set ''abcdefghijklmnopqrstuvwxyz'')"

definition is_alnum :: "char \<Rightarrow> bool" where
  \<comment> \<open>the class \<open>[A-Za-z0-9]\<close>\<close>
  "is_alnum c = (is_upper_AZ c \<or> is_lower_az c \<or> is_digit c)"

definition is_alnum_dash :: "char \<Rightarrow> bool" where
  \<comment> \<open>the class \<open>[A-Za-z0-9\-]\<close>\<close>
  "is_alnum_dash c = (is_alnum c \<or> c = CHR ''-'')"

definition lstrip :: "string \<Rightarrow> string" where
  "lstrip s = dropWhile is_space s"

definition rstrip :: "string \<Rightarrow> string" where
  "rstrip s = rev (dropWhile is_space (rev s))"

definition strip :: "string \<Rightarrow> string" where
  "strip s = rstrip (lstrip s)"

definition rstrip_chars :: "string \<Rightarrow> string \<Rightarrow> string" where
  \<comment> \<open>\<open>s.rstrip(chars)\<close>\<close>
  "rstrip_chars cs s = rev (dropWhile (\<lambda>c. c \<in> set cs) (rev s))"

definition startswith :: "string \<Rightarrow> string \<Rightarrow> bool" where
  "startswith s p = (take (length p) s = p)"

definition endswith :: "string \<Rightarrow> string \<Rightarrow> bool" where
  "endswith s p = (length p \<le> length s \<and> drop (length s - length p) s = p)"

definition at_dollar :: "string \<Rightarrow> bool" where
  \<comment> \<open>the anchor \<open>$\<close> (no MULTILINE), given what is left of the subject: it matches at
      the end and just before a newline that ends the string\<close>
  "at_dollar r = (r = [] \<or> r = [CHR 0x0A])"

definition digits_n :: "nat \<Rightarrow> string \<Rightarrow> bool" where
  \<comment> \<open>exactly \<open>n\<close> characters, all of them digits: \<open>\d{n}\<close>\<close>
  "digits_n n s = (length s = n \<and> list_all is_digit s)"

definition digit_val :: "char \<Rightarrow> nat" where
  "digit_val c = (case map_of (zip ''0123456789'' [0, 1, 2, 3, 4, 5, 6, 7, 8, 9]) c of
                    Some v \<Rightarrow> v | None \<Rightarrow> 0)"

definition int_of_digits :: "string \<Rightarrow> nat" where
  \<comment> \<open>\<open>int(s)\<close> for a string of digits\<close>
  "int_of_digits s = foldl (\<lambda>a c. 10 * a + digit_val c) 0 s"

definition digit_char :: "nat \<Rightarrow> char" where
  "digit_char n = ''0123456789'' ! (n mod 10)"

function show_nat :: "nat \<Rightarrow> string" where
  \<comment> \<open>the decimal numeral of a number, as \<open>str(n)\<close> gives it\<close>
  "show_nat n = (if n < 10 then [digit_char n] else show_nat (n div 10) @ [digit_char n])"
  by pat_completeness auto
termination
  by (relation "measure id") auto

declare show_nat.simps [simp del]

definition fmt02d :: "nat \<Rightarrow> string" where
  \<comment> \<open>the format \<open>{n:02d}\<close>: at least two digits, padded with a zero\<close>
  "fmt02d n = (if n < 10 then CHR ''0'' # show_nat n else show_nat n)"

section \<open>Date normalizer\<close>

definition is_leap :: "nat \<Rightarrow> bool" where
  "is_leap y = (y mod 4 = 0 \<and> (y mod 100 \<noteq> 0 \<or> y mod 400 = 0))"

definition days_in_month :: "nat \<Rightarrow> nat \<Rightarrow> nat" where
  "days_in_month y m =
     (if m = 2 then (if is_leap y then 29 else 28)
      else if m = 4 \<or> m = 6 \<or> m = 9 \<or> m = 11 then 30 else 31)"

definition valid_date :: "nat \<Rightarrow> nat \<Rightarrow> nat \<Rightarrow> bool" where
  \<comment> \<open>\<open>datetime.date(y, m, d)\<close> does not raise: years run from 1 to 9999\<close>
  "valid_date y m d =
     (1 \<le> y \<and> y \<le> 9999 \<and> 1 \<le> m \<and> m \<le> 12 \<and> 1 \<le> d \<and> d \<le> days_in_month y m)"

definition re_date_strict :: "string \<Rightarrow> bool" where
  \<comment> \<open>\<open>DATE_RE_STRICT.match(s)\<close>, the pattern \<open>^\d{8}$\<close>\<close>
  "re_date_strict s = (digits_n 8 (take 8 s) \<and> at_dollar (drop 8 s))"

definition re_date_dashed :: "string \<Rightarrow> (string \<times> string \<times> string) option" where
  \<comment> \<open>\<open>re.match\<close> of \<open>^(\d{4})-(\d{2})-(\d{2})$\<close>, with the three groups\<close>
  "re_date_dashed s =
     (let y = take 4 s; mo = take 2 (drop 5 s); d = take 2 (drop 8 s) in
      if digits_n 4 y \<and> take 1 (drop 4 s) = ''-'' \<and> digits_n 2 mo \<and>
         take 1 (drop 7 s) = ''-'' \<and> digits_n 2 d \<and> at_dollar (drop 10 s)
      then Some (y, mo, d) else None)"

definition digits_1_2 :: "string \<Rightarrow> (string \<times> string) option" where
  \<comment> \<open>\<open>(\d{1,2})\<close> followed by a character that is no digit (or by the end): the run of
      digits at the front has to be one or two long; the result is the run and the rest\<close>
  "digits_1_2 s =
     (let g = takeWhile is_digit s in
      if 1 \<le> length g \<and> length g \<le> 2 then Some (g, dropWhile is_digit s) else None)"

definition re_date_mdy :: "string \<Rightarrow> (string \<times> string \<times> string) option" where
  \<comment> \<open>\<open>re.match\<close> of \<open>^(\d{1,2})/(\d{1,2})/(\d{4})$\<close>, groups in the order of the pattern\<close>
  "re_date_mdy s =
     (case digits_1_2 s of
        None \<Rightarrow> None
      | Some (mo, r1) \<Rightarrow>
          if take 1 r1 \<noteq> ''/'' then None
          else (case digits_1_2 (drop 1 r1) of
                  None \<Rightarrow> None
                | Some (d, r2) \<Rightarrow>
                    if take 1 r2 = ''/'' \<and> digits_n 4 (take 4 (drop 1 r2)) \<and>
                       at_dollar (drop 5 r2)
                    then Some (mo, d, take 4 (drop 1 r2)) else None))"

definition re_date_ymd :: "string \<Rightarrow> (string \<times> string \<times> string) option" where
  \<comment> \<open>\<open>re.match\<close> of \<open>^(\d{4})/(\d{1,2})/(\d{1,2})$\<close>\<close>
  "re_date_ymd s =
     (if digits_n 4 (take 4 s) \<and> take 1 (drop 4 s) = ''/'' then
        (case digits_1_2 (drop 5 s) of
           None \<Rightarrow> None
         | Some (mo, r1) \<Rightarrow>
             if take 1 r1 \<noteq> ''/'' then None
             else (case digits_1_2 (drop 1 r1) of
                     None \<Rightarrow> None
                   | Some (d, r2) \<Rightarrow>
                       if at_dollar r2 then Some (take 4 s, mo, d) else None))
      else None)"

definition re_date_nine :: "string \<Rightarrow> (string \<times> string \<times> string) option" where
  \<comment> \<open>\<open>re.match\<close> of \<open>^(\d{4})0(\d{2})(\d{2})$\<close>\<close>
  "re_date_nine s =
     (let y = take 4 s; mo = take 2 (drop 5 s); d = take 2 (drop 7 s) in
      if digits_n 4 y \<and> take 1 (drop 4 s) = ''0'' \<and> digits_n 2 mo \<and> digits_n 2 d \<and>
         at_dollar (drop 9 s)
      then Some (y, mo, d) else None)"

definition try_normalize_date :: "string \<Rightarrow> string option \<times> string option" where
  "try_normalize_date tok =
     (let s = strip tok in
      if s = [] then (None, None)
      else if re_date_strict s then (Some s, None)
      else case re_date_dashed s of
        Some (y, mo, d) \<Rightarrow> (Some (y @ mo @ d), Some ''Normalized date from YYYY-MM-DD'')
      | None \<Rightarrow>
     (case re_date_mdy s of
        Some (mo, d, y) \<Rightarrow>
          (Some (y @ fmt02d (int_of_digits mo) @ fmt02d (int_of_digits d)),
           Some ''Normalized date from M/D/YYYY'')
      | None \<Rightarrow>
     (case re_date_ymd s of
        Some (y, mo, d) \<Rightarrow>
          (Some (y @ fmt02d (int_of_digits mo) @ fmt02d (int_of_digits d)),
           Some ''Normalized date from YYYY/M/D'')
      | None \<Rightarrow>
     (case re_date_nine s of
        Some (y, mo, d) \<Rightarrow>
          if valid_date (int_of_digits y) (int_of_digits mo) (int_of_digits d)
          then (Some (y @ mo @ d),
                Some ''Normalized date from malformed token (dropped stray 0).'')
          else (None, None)
      | None \<Rightarrow> (None, None)))))"

section \<open>Structured-code (CSI) normalizer\<close>

definition re_csi3 :: "string \<Rightarrow> bool" where
  \<comment> \<open>\<open>re.match\<close> of \<open>^\d{2}-\d{2}-\d{2}$\<close>\<close>
  "re_csi3 t =
     (digits_n 2 (take 2 t) \<and> take 1 (drop 2 t) = ''-'' \<and> digits_n 2 (take 2 (drop 3 t)) \<and>
      take 1 (drop 5 t) = ''-'' \<and> digits_n 2 (take 2 (drop 6 t)) \<and> at_dollar (drop 8 t))"

definition re_csi4 :: "string \<Rightarrow> bool" where
  \<comment> \<open>\<open>re.match\<close> of \<open>^\d{2}-\d{2}-\d{2}-\d{2}$\<close>\<close>
  "re_csi4 t =
     (digits_n 2 (take 2 t) \<and> take 1 (drop 2 t) = ''-'' \<and> digits_n 2 (take 2 (drop 3 t)) \<and>
      take 1 (drop 5 t) = ''-'' \<and> digits_n 2 (take 2 (drop 6 t)) \<and>
      take 1 (drop 8 t) = ''-'' \<and> digits_n 2 (take 2 (drop 9 t)) \<and> at_dollar (drop 11 t))"

definition csi_segments3 :: "string \<Rightarrow> string" where
  "csi_segments3 digits = take 2 digits @ ''-'' @ take 2 (drop 2 digits) @ ''-'' @
                          take 2 (drop 4 digits)"

definition csi_segments4 :: "string \<Rightarrow> string" where
  "csi_segments4 digits = take 2 digits @ ''-'' @ take 2 (drop 2 digits) @ ''-'' @
                          take 2 (drop 4 digits) @ ''-'' @ take 2 (drop 6 digits)"

definition normalize_csi :: "string \<Rightarrow> string option \<times> string option" where
  "normalize_csi token =
     (let t = strip token in
      if t = [] then (None, None)
      else if re_csi3 t \<or> re_csi4 t then (Some t, None)
      else let digits = filter is_digit t in
        if length digits = 6 then
          (Some (csi_segments3 digits), Some ''Auto-formatted CSI from 6 digits'')
        else if length digits = 8 then
          (Some (csi_segments4 digits), Some ''Auto-formatted CSI from 8 digits'')
        else if CHR ''-'' \<in> set t \<and> (length digits = 6 \<or> length digits = 8) then
          (if length digits = 6
           then (Some (csi_segments3 digits), Some ''Corrected malformed CSI hyphenation'')
           else (Some (csi_segments4 digits), Some ''Corrected malformed CSI hyphenation''))
        else (None, None))"

section \<open>More string operations\<close>

definition py_lower_char :: "char \<Rightarrow> char" where
  \<comment> \<open>\<open>str.lower\<close> on one code point below 256: the ASCII capitals and the Latin-1
      capitals (C0 to DE, without the multiplication sign D7) move up by 32\<close>
  "py_lower_char c =
     (case map_of (zip (''ABCDEFGHIJKLMNOPQRSTUVWXYZ'' @
                        [CHR 0xC0, CHR 0xC1, CHR 0xC2, CHR 0xC3, CHR 0xC4, CHR 0xC5, CHR 0xC6,
                         CHR 0xC7, CHR 0xC8, CHR 0xC9, CHR 0xCA, CHR 0xCB, CHR 0xCC, CHR 0xCD,
                         CHR 0xCE, CHR 0xCF, CHR 0xD0, CHR 0xD1, CHR 0xD2, CHR 0xD3, CHR 0xD4,
                         CHR 0xD5, CHR 0xD6, CHR 0xD8, CHR 0xD9, CHR 0xDA, CHR 0xDB, CHR 0xDC,
                         CHR 0xDD, CHR 0xDE])
                       (''abcdefghijklmnopqrstuvwxyz'' @
                        [CHR 0xE0, CHR 0xE1, CHR 0xE2, CHR 0xE3, CHR 0xE4, CHR 0xE5, CHR 0xE6,
                         CHR 0xE7, CHR 0xE8, CHR 0xE9, CHR 0xEA, CHR 0xEB, CHR 0xEC, CHR 0xED,
                         CHR 0xEE, CHR 0xEF, CHR 0xF0, CHR 0xF1, CHR 0xF2, CHR 0xF3, CHR 0xF4,
                         CHR 0xF5, CHR 0xF6, CHR 0xF8, CHR 0xF9, CHR 0xFA, CHR 0xFB, CHR 0xFC,
                         CHR 0xFD, CHR 0xFE])) c of
        Some l \<Rightarrow> l | None \<Rightarrow> c)"

definition py_lower :: "string \<Rightarrow> string" where
  "py_lower s = map py_lower_char s"

definition upper_O_to_0 :: "string \<Rightarrow> string" where
  \<comment> \<open>\<open>raw.upper().replace('O', '0')\<close>. The source applies it to a group matched by
      \<open>[0-9Oo]{1,2}\<close> (or to the literal \<open>0\<close>), where \<open>upper\<close> changes the letter
      \<open>o\<close> only: both cases of the letter become the digit\<close>
  "upper_O_to_0 raw = map (\<lambda>c. if c = CHR ''o'' \<or> c = CHR ''O'' then CHR ''0'' else c) raw"

fun contains :: "string \<Rightarrow> string \<Rightarrow> bool" where
  \<comment> \<open>\<open>sub in s\<close>\<close>
  "contains sub [] = (sub = [])"
| "contains sub (c # cs) = (startswith (c # cs) sub \<or> contains sub cs)"

fun split_on :: "char \<Rightarrow> string \<Rightarrow> string list" where
  \<comment> \<open>\<open>s.split(c)\<close>\<close>
  "split_on c [] = [[]]"
| "split_on c (x # xs) =
     (if x = c then [] # split_on c xs
      else (case split_on c xs of t # ts \<Rightarrow> (x # t) # ts | [] \<Rightarrow> [[x]]))"

fun py_join :: "string \<Rightarrow> string list \<Rightarrow> string" where
  \<comment> \<open>\<open>sep.join(parts)\<close>\<close>
  "py_join sep [] = []"
| "py_join sep [x] = x"
| "py_join sep (x # y # ys) = x @ sep @ py_join sep (y # ys)"

definition truthy :: "string option \<Rightarrow> bool" where
  \<comment> \<open>the truth value of an \<open>Optional[str]\<close>: neither \<open>None\<close> nor empty\<close>
  "truthy x = (case x of None \<Rightarrow> False | Some s \<Rightarrow> s \<noteq> [])"

definition split_ext :: "string \<Rightarrow> string \<times> string" where
  \<comment> \<open>the stem and the extension: the name is cut at its last dot, which stays with the
      extension; without a dot the extension is empty\<close>
  "split_ext original =
     (if CHR ''.'' \<in> set original
      then (let tail = rev (takeWhile (\<lambda>c. c \<noteq> CHR ''.'') (rev original));
                k = length original - (length tail + 1)
            in (take k original, drop k original))
      else (original, []))"

datatype py_error = IndexError

definition py_index :: "'a list \<Rightarrow> nat \<Rightarrow> py_error + 'a" where
  \<comment> \<open>\<open>xs[i]\<close> for an index that is not negative\<close>
  "py_index xs i = (if i < length xs then Inr (xs ! i) else Inl IndexError)"

definition bindE :: "py_error + 'a \<Rightarrow> ('a \<Rightarrow> py_error + 'b) \<Rightarrow> py_error + 'b" where
  "bindE m f = (case m of Inl e \<Rightarrow> Inl e | Inr x \<Rightarrow> f x)"

definition index_or_None :: "string list \<Rightarrow> nat \<Rightarrow> py_error + string option" where
  \<comment> \<open>\<open>rest[i] if len(rest) > i else None\<close>\<close>
  "index_or_None rest i =
     (if length rest > i then bindE (py_index rest i) (\<lambda>x. Inr (Some x)) else Inr None)"

section \<open>Regular expressions: substitution and search\<close>

text \<open>
  A pattern is given by its matcher: a function that is told whether the position is the
  start of the subject (for the anchor \<open>^\<close>) and is given the subject from that
  position on, and answers with the length of the match there and its group 1, as the
  backtracking matcher of \<open>re\<close> finds them. \<open>re.sub\<close> and \<open>re.search\<close> walk the
  subject from left to right. No pattern of this program matches the empty string.
\<close>

type_synonym matcher = "bool \<Rightarrow> string \<Rightarrow> (nat \<times> string) option"

fun re_sub_groups :: "matcher \<Rightarrow> string \<Rightarrow> bool \<Rightarrow> string \<Rightarrow> string \<times> string list" where
  \<comment> \<open>the result of \<open>re.sub\<close> with a fixed replacement, and group 1 of every match that
      was replaced, in order\<close>
  "re_sub_groups m rep at_start [] = ([], [])"
| "re_sub_groups m rep at_start (c # cs) =
     (case m at_start (c # cs) of
        Some (Suc k, g) \<Rightarrow>
          (case re_sub_groups m rep False (drop k cs) of (r, gs) \<Rightarrow> (rep @ r, g # gs))
      | _ \<Rightarrow>
          (case re_sub_groups m rep False cs of (r, gs) \<Rightarrow> (c # r, gs)))"

definition re_sub :: "matcher \<Rightarrow> string \<Rightarrow> string \<Rightarrow> string" where
  "re_sub m rep s = fst (re_sub_groups m rep True s)"

fun re_search_from :: "matcher \<Rightarrow> bool \<Rightarrow> string \<Rightarrow> (nat \<times> nat \<times> string) option" where
  \<comment> \<open>the leftmost match: its start, its length and its group 1\<close>
  "re_search_from m at_start [] =
     (case m at_start [] of Some (n, g) \<Rightarrow> Some (0, n, g) | None \<Rightarrow> None)"
| "re_search_from m at_start (c # cs) =
     (case m at_start (c # cs) of
        Some (n, g) \<Rightarrow> Some (0, n, g)
      | None \<Rightarrow>
          (case re_search_from m False cs of
             Some (i, n, g) \<Rightarrow> Some (Suc i, n, g) | None \<Rightarrow> None))"

definition re_search :: "matcher \<Rightarrow> string \<Rightarrow> (nat \<times> nat \<times> string) option" where
  "re_search m s = re_search_from m True s"

definition start_or_sep :: "(char \<Rightarrow> bool) \<Rightarrow> (string \<Rightarrow> (nat \<times> string) option) \<Rightarrow> matcher" where
  \<comment> \<open>\<open>(?:^|[seps])body\<close>: first the alternative \<open>^\<close>, at the start only, then the
      alternative that consumes one separator\<close>
  "start_or_sep sep body at_start r =
     (case (if at_start then body r else None) of
        Some x \<Rightarrow> Some x
      | None \<Rightarrow>
          (case r of
             [] \<Rightarrow> None
           | c # r' \<Rightarrow>
               if sep c then (case body r' of Some (n, g) \<Rightarrow> Some (Suc n, g) | None \<Rightarrow> None)
               else None))"

subsection \<open>Runs of underscores\<close>

definition is_underscore :: "char \<Rightarrow> bool" where
  "is_underscore c = (c = CHR ''_'')"

definition m_multi_unders :: matcher where
  \<comment> \<open>\<open>MULTI_UNDERS\<close>, the pattern \<open>__+\<close>: the whole run, when it has two or more\<close>
  "m_multi_unders at_start r =
     (let n = length (takeWhile is_underscore r) in if 2 \<le> n then Some (n, []) else None)"

definition m_trailing_unders :: matcher where
  \<comment> \<open>\<open>TRAILING_UNDERS\<close>, the pattern \<open>_+$\<close>: a run that the anchor follows; a
      shorter part of the run is followed by an underscore, never by the anchor\<close>
  "m_trailing_unders at_start r =
     (let n = length (takeWhile is_underscore r)
      in if 1 \<le> n \<and> at_dollar (drop n r) then Some (n, []) else None)"

subsection \<open>Extension tokens in a title\<close>

definition is_sep3 :: "char \<Rightarrow> bool" where
  \<comment> \<open>the class \<open>[._-]\<close>\<close>
  "is_sep3 c = (c \<in> set ''._-'')"

definition EXT_TOKENS :: "string list" where
  "EXT_TOKENS = [''pdf'', ''doc'', ''docx'', ''xls'', ''xlsx'', ''ppt'', ''pptx'',
                 ''jpg'', ''jpeg'', ''png'', ''tif'', ''tiff'', ''gif'', ''bmp'', ''heic'',
                 ''dwg'', ''rvt'', ''csv'', ''txt'', ''rtf'', ''zip'', ''msg'', ''eml'']"

definition EXT_ALTERNATIVES :: "string list" where
  \<comment> \<open>the alternatives \<open>pdf|docx?|xlsx?|pptx?|jpe?g|png|tiff?|tif|gif|...\<close> in the
      order the matcher tries them: an optional letter is tried present first\<close>
  "EXT_ALTERNATIVES = [''pdf'', ''docx'', ''doc'', ''xlsx'', ''xls'', ''pptx'', ''ppt'',
                       ''jpeg'', ''jpg'', ''png'', ''tiff'', ''tif'', ''tif'', ''gif'', ''bmp'',
                       ''heic'', ''dwg'', ''rvt'', ''csv'', ''txt'', ''rtf'', ''zip'', ''msg'',
                       ''eml'']"

definition ext_boundary :: "string \<Rightarrow> bool" where
  \<comment> \<open>the lookahead \<open>(?=$|[._-])\<close>\<close>
  "ext_boundary r = (at_dollar r \<or> (case r of [] \<Rightarrow> False | c # _ \<Rightarrow> is_sep3 c))"

definition ext_token_at :: "string \<Rightarrow> (nat \<times> string) option" where
  \<comment> \<open>the group of alternatives, matched without regard to case, then the lookahead\<close>
  "ext_token_at r =
     (case find (\<lambda>t. py_lower (take (length t) r) = t \<and> ext_boundary (drop (length t) r))
                EXT_ALTERNATIVES of
        Some t \<Rightarrow> Some (length t, take (length t) r)
      | None \<Rightarrow> None)"

definition m_ext_token :: matcher where
  "m_ext_token = start_or_sep is_sep3 ext_token_at"

definition m_sep_run2 :: matcher where
  \<comment> \<open>the pattern \<open>[._-]{2,}\<close>\<close>
  "m_sep_run2 at_start r =
     (let n = length (takeWhile is_sep3 r) in if 2 \<le> n then Some (n, []) else None)"

definition m_trim_seps :: matcher where
  \<comment> \<open>the pattern \<open>^[._-]+|[._-]+$\<close>\<close>
  "m_trim_seps at_start r =
     (let n = length (takeWhile is_sep3 r)
      in if 1 \<le> n \<and> (at_start \<or> at_dollar (drop n r)) then Some (n, []) else None)"

definition strip_spurious_extensions :: "string \<Rightarrow> string list \<Rightarrow> string \<times> string list" where
  "strip_spurious_extensions text notes =
     (let s = text;
          s2 = re_sub m_ext_token [] s;
          lowered = py_lower s2;
          s2 = (case find (\<lambda>ext. endswith lowered ext) EXT_TOKENS of
                  Some ext \<Rightarrow> take (length s2 - length ext) s2
                | None \<Rightarrow> s2);
          notes = (if s2 \<noteq> s then notes @ [''Removed extra extension token from title.'']
                   else notes);
          s2 = re_sub m_sep_run2 ''-'' s2;
          s2 = re_sub m_trim_seps [] s2
      in (s2, notes))"

section \<open>Title and identifier sanitizers\<close>

definition replace_amp :: "string \<Rightarrow> string" where
  \<comment> \<open>\<open>s.replace("&", "and")\<close>\<close>
  "replace_amp s = concat (map (\<lambda>c. if c = CHR ''&'' then ''and'' else [c]) s)"

definition sanitize_title :: "string \<Rightarrow> string list \<Rightarrow> string \<times> string list" where
  "sanitize_title raw notes0 =
     (let before_raw = raw;
          (s, notes) = strip_spurious_extensions raw notes0;
          (s, notes) = (if CHR ''&'' \<in> set s
                        then (replace_amp s, notes @ [''Replaced '' @ [CHR 0x27] @ ''&'' @ [CHR 0x27] @ '' with '' @ [CHR 0x27] @ ''and'' @ [CHR 0x27] @ '' in title.''])
                        else (s, notes));
          (s, notes) = (if CHR '' '' \<in> set s
                        then (filter (\<lambda>c. \<not> is_space c) s, notes @ [''Removed spaces from title.''])
                        else (s, notes));
          (s, notes) = (if CHR ''_'' \<in> set s
                        then (filter (\<lambda>c. c \<noteq> CHR ''_'') s,
                              notes @ [''Removed internal underscores from title.''])
                        else (s, notes));
          s2 = filter is_alnum_dash s;
          notes = (if s2 \<noteq> s then notes @ [''Removed special characters from title.'']
                   else notes);
          s = s2;
          (s, notes) = strip_spurious_extensions s notes;
          notes = (if s \<noteq> before_raw \<and> ''Normalized title.'' \<notin> set notes
                   then notes @ [''Normalized title.''] else notes)
      in (s, notes))"

definition sanitize_id_any :: "string \<Rightarrow> string list \<Rightarrow> string \<Rightarrow> string \<times> string list" where
  "sanitize_id_any raw notes0 label =
     (let s = raw; notes = notes0;
          (s, notes) = (if CHR '' '' \<in> set s
                        then (filter (\<lambda>c. \<not> is_space c) s,
                              notes @ [''Removed spaces from '' @ label @ ''.''])
                        else (s, notes));
          (s, notes) = (if CHR ''_'' \<in> set s
                        then (filter (\<lambda>c. c \<noteq> CHR ''_'') s,
                              notes @ [''Removed underscores from '' @ label @ ''.''])
                        else (s, notes));
          s2 = filter is_alnum_dash s;
          notes = (if s2 \<noteq> s then notes @ [''Removed special characters from '' @ label @ ''.'']
                   else notes)
      in (s2, notes))"

section \<open>Revision extractor\<close>

definition is_revsep :: "char \<Rightarrow> bool" where
  \<comment> \<open>the class \<open>[_\-\.\s]\<close>\<close>
  "is_revsep c = (c \<in> set ''_-.'' \<or> is_space c)"

definition is_dO :: "char \<Rightarrow> bool" where
  \<comment> \<open>the class \<open>[0-9Oo]\<close>\<close>
  "is_dO c = (c \<in> set ''0123456789Oo'')"

definition drop_final_newline :: "string \<Rightarrow> string" where
  \<comment> \<open>a pattern that ends in \<open>$\<close> after a character other than a newline ends its match
      at the end of the subject, or just before the newline that ends the subject\<close>
  "drop_final_newline s = (if s \<noteq> [] \<and> last s = CHR 0x0A then butlast s else s)"

definition ends_with_rev :: "string \<Rightarrow> bool" where
  \<comment> \<open>the string ends with \<open>Rev\<close>, in any case, followed by separators only\<close>
  "ends_with_rev x = (py_lower (take 3 (dropWhile is_revsep (rev x))) = ''ver'')"

definition re_rev_dot_search :: "string \<Rightarrow> bool" where
  \<comment> \<open>\<open>re.search\<close> of \<open>(?i)Rev[._\-\s]*[0-9Oo]{1,2}\.$\<close> finds a match: before the
      final dot stand one or two characters of the class, and before them \<open>Rev\<close> and
      separators\<close>
  "re_rev_dot_search s =
     (let t = drop_final_newline s in
      t \<noteq> [] \<and> last t = CHR ''.'' \<and>
      (let u = butlast t in
       list_ex (\<lambda>k. k \<le> length u \<and> list_all is_dO (drop (length u - k) u) \<and>
                     ends_with_rev (take (length u - k) u)) [1, 2]))"

definition canon_rev_search :: "string \<Rightarrow> (nat \<times> string) option" where
  \<comment> \<open>\<open>CANON_REV_SUFFIX.search(s)\<close>, the pattern \<open>_Rev(\d{1,2})$\<close>: the start of the
      match and group 1. The group is the whole run of digits at the end, since the
      character before the group is the letter \<open>v\<close>\<close>
  "canon_rev_search s =
     (let t = drop_final_newline s;
          g = rev (takeWhile is_digit (rev t));
          x = take (length t - length g) t
      in if 1 \<le> length g \<and> length g \<le> 2 \<and> endswith x ''_Rev''
         then Some (length x - 4, g) else None)"

definition rev_any_infix_search :: "string \<Rightarrow> (nat \<times> string) option" where
  \<comment> \<open>\<open>REV_ANY_INFIX.search(s)\<close>, the pattern \<open>[_\-\.\s]*Rev[_\-\.\s]*([0-9Oo]{1,2})$\<close>
      without regard to case: the start of the leftmost match and group 1. The group is
      the whole run of the class at the end (one or two long), before it come separators
      and \<open>Rev\<close>, and the leftmost start is the start of the separators before \<open>Rev\<close>\<close>
  "rev_any_infix_search s =
     (let t = drop_final_newline s;
          g = rev (takeWhile is_dO (rev t));
          x = take (length t - length g) t;
          y = rev (dropWhile is_revsep (rev x));
          z = take (length y - 3) y;
          start = length (dropWhile is_revsep (rev z))
      in if 1 \<le> length g \<and> length g \<le> 2 \<and> py_lower (drop (length y - 3) y) = ''rev''
         then Some (start, g) else None)"

definition rev_boundary :: "string \<Rightarrow> bool" where
  \<comment> \<open>the lookahead \<open>(?=$|[._\-\s])\<close>\<close>
  "rev_boundary r = (at_dollar r \<or> (case r of [] \<Rightarrow> False | c # _ \<Rightarrow> is_revsep c))"

definition embedded_rev_body :: "string \<Rightarrow> (nat \<times> string) option" where
  \<comment> \<open>\<open>Rev[._\-\s]*([0-9Oo]{1,2})(?=$|[._\-\s])\<close> without regard to case: all the
      separators, then two characters of the class when there are two, one otherwise\<close>
  "embedded_rev_body r =
     (if py_lower (take 3 r) \<noteq> ''rev'' then None
      else let r1 = drop 3 r;
               n2 = length (takeWhile is_revsep r1);
               r2 = drop n2 r1;
               g = take 2 (takeWhile is_dO r2)
           in if g \<noteq> [] \<and> rev_boundary (drop (length g) r2)
              then Some (3 + n2 + length g, g) else None)"

definition m_embedded_rev :: matcher where
  \<comment> \<open>\<open>EMBEDDED_REV\<close>\<close>
  "m_embedded_rev = start_or_sep is_revsep embedded_rev_body"

definition orphan_rev_body :: "string \<Rightarrow> (nat \<times> string) option" where
  "orphan_rev_body r =
     (if py_lower (take 3 r) = ''rev'' \<and> rev_boundary (drop 3 r) then Some (3, []) else None)"

definition m_orphan_rev :: matcher where
  \<comment> \<open>\<open>ORPHAN_EMBEDDED_REV\<close>, the pattern \<open>(?i)(?:^|[._\-\s])Rev(?=$|[._\-\s])\<close>\<close>
  "m_orphan_rev = start_or_sep is_revsep orphan_rev_body"

definition strip_embedded :: "string \<Rightarrow> string \<Rightarrow> string" where
  \<comment> \<open>the assignment the callback \<open>_strip_embedded\<close> makes to \<open>captured_digits\<close> at one
      match, given group 1 of the match\<close>
  "strip_embedded captured raw = (if raw \<noteq> [] then take 2 (upper_O_to_0 raw) else captured)"

definition extract_rev :: "string \<Rightarrow> string list \<Rightarrow> (string \<times> string) \<times> string list" where
  \<comment> \<open>\<open>captured_digits\<close> is an optional string that the source tests for truth only:
      the empty string stands for \<open>None\<close>\<close>
  "extract_rev trailing notes0 =
     (let s = rstrip trailing;
          had_trailing_dot_after_rev = re_rev_dot_search s
      in case canon_rev_search s of
           Some (start, g) \<Rightarrow>
             (let digits = take 2 g;
                  base = rstrip_chars ''_- .'' (take start s)
              in ((base, ''Rev'' @ digits), notes0))
         | None \<Rightarrow>
             (let (s, captured_digits, notes) =
                (case rev_any_infix_search s of
                   Some (start, raw) \<Rightarrow>
                     (let digits = take 2 (upper_O_to_0 raw);
                          notes = (if digits \<noteq> raw
                                   then notes0 @ [''Corrected letter '' @ [CHR 0x27] @ ''O'' @ [CHR 0x27] @ '' to digit '' @ [CHR 0x27] @ ''0'' @ [CHR 0x27] @ '' in revision.'']
                                   else notes0)
                      in (rstrip_chars ''_- .'' (take start s), digits,
                          notes @ [''Normalized revision element.'']))
                 | None \<Rightarrow>
                     (let (s2, groups) = re_sub_groups m_embedded_rev [] True s;
                          saw_embedded = (groups \<noteq> []);
                          captured = foldl strip_embedded [] groups;
                          (s2, saw_embedded) =
                            (if s2 = s
                             then (let s3 = re_sub m_orphan_rev [] s
                                   in (s3, saw_embedded \<or> s3 \<noteq> s))
                             else (s2, saw_embedded));
                          notes = (if saw_embedded
                                   then notes0 @ [''Removed embedded revision token from title.'',
                                                  ''Normalized revision element.'']
                                   else notes0)
                      in (rstrip_chars ''_- .'' s2, captured, notes)));
                  (captured_digits, notes) =
                    (if captured_digits = []
                     then (''0'', notes @ [''Added Rev0 (missing revision element).''])
                     else (captured_digits, notes));
                  notes = (if had_trailing_dot_after_rev \<and>
                              ''Removed extra period after revision element.'' \<notin> set notes
                           then notes @ [''Removed extra period after revision element.'']
                           else notes)
              in ((s, ''Rev'' @ captured_digits), notes)))"

section \<open>Length budget and assembly\<close>

definition MAX_CHARS_TOTAL :: nat where
  "MAX_CHARS_TOTAL = 64"

definition enforce_stem_limit ::
  "string \<Rightarrow> string option \<Rightarrow> string \<Rightarrow> string \<Rightarrow> string \<Rightarrow> string list \<Rightarrow> string \<times> string list" where
  \<comment> \<open>\<open>keep = max(0, len(title) - over)\<close>: the subtraction of natural numbers stops at 0\<close>
  "enforce_stem_limit prefix id_part date title rev_s notes =
     (let base = prefix @ ''_'';
          base = (case id_part of
                    Some i \<Rightarrow> if i \<noteq> [] then base @ i @ ''_'' else base
                  | None \<Rightarrow> base);
          base = base @ date @ ''_'';
          stem_len = length base + length title + 1 + length rev_s
      in if stem_len > MAX_CHARS_TOTAL then
           (let over = stem_len - MAX_CHARS_TOTAL;
                keep = length title - over
            in (take keep title,
                notes @ [''File name exceeds '' @ show_nat MAX_CHARS_TOTAL @
                         ''-character limit (title truncated).'']))
         else (title, notes))"

definition join_tokens :: "string \<Rightarrow> string option \<Rightarrow> string \<Rightarrow> string \<Rightarrow> string \<Rightarrow> string" where
  "join_tokens prefix id_part date title rev_s =
     (let parts = [prefix] @
                  (case id_part of Some i \<Rightarrow> if i \<noteq> [] then [i] else [] | None \<Rightarrow> []) @
                  [date, title, rev_s];
          s = py_join ''_'' parts;
          s = re_sub m_multi_unders ''_'' s;
          s = re_sub m_trailing_unders [] s
      in s)"

definition underscores_ok :: "string \<Rightarrow> bool \<Rightarrow> bool" where
  "underscores_ok stem has_id = (count_list stem (CHR ''_'') = (if has_id then 4 else 3))"

definition postprocess_before_ext :: "string \<Rightarrow> string list \<Rightarrow> string \<times> string list" where
  "postprocess_before_ext stem0 notes0 =
     (let (stem, notes) =
            (if endswith stem0 ''_''
             then (rstrip_chars ''_'' stem0,
                   if ''Removed trailing underscore before extension.'' \<notin> set notes0
                   then notes0 @ [''Removed trailing underscore before extension.'']
                   else notes0)
             else (stem0, notes0))
      in if endswith stem ''.''
         then (rstrip_chars ''.'' stem,
               if ''Removed extra period after revision element.'' \<notin> set notes
               then notes @ [''Removed extra period after revision element.'']
               else notes)
         else (stem, notes))"

definition assemble_decision ::
  "string option \<Rightarrow> string list \<Rightarrow> string option \<times> string list \<times> bool" where
  "assemble_decision suggested_or_none issues =
     (if list_ex (contains ''Does not follow CTA'') issues then (Some [], issues, True)
      else case suggested_or_none of
             None \<Rightarrow> (Some [], issues, True)
           | Some s \<Rightarrow> (Some s, issues, True))"

definition finalize_fields ::
  "string \<Rightarrow> string option \<Rightarrow> string \<Rightarrow> string \<Rightarrow> string option \<Rightarrow> string list
     \<Rightarrow> (string option \<times> string \<times> string) \<times> string list" where
  \<comment> \<open>the first five statements of \<open>finalize\<close>: the cleaned identifier, the title as it
      goes into the name, and the revision\<close>
  "finalize_fields prefix id_part date_token title_raw hard_rev issues0 =
     (let ((title_no_rev, rev_norm), issues) = extract_rev title_raw issues0;
          rev_s = (if truthy hard_rev then (case hard_rev of Some h \<Rightarrow> h | None \<Rightarrow> rev_norm)
                 else rev_norm);
          id_clean = (case id_part of
                        Some i \<Rightarrow> if i \<noteq> [] then Some (filter (\<lambda>c. c \<noteq> CHR ''_'') i) else None
                      | None \<Rightarrow> None);
          (title, issues) = sanitize_title title_no_rev issues;
          (title, issues) = enforce_stem_limit prefix id_clean date_token title rev_s issues
      in ((id_clean, title, rev_s), issues))"

definition finalize_stem ::
  "string \<Rightarrow> string option \<Rightarrow> string \<Rightarrow> string \<Rightarrow> string option \<Rightarrow> string list
     \<Rightarrow> string \<times> string list" where
  \<comment> \<open>\<open>finalize\<close> up to its return: the suggested stem and the notes\<close>
  "finalize_stem prefix id_part date_token title_raw hard_rev issues0 =
     (let ((id_clean, title, rev_s), issues) =
            finalize_fields prefix id_part date_token title_raw hard_rev issues0;
          suggested_stem = join_tokens prefix id_clean date_token title rev_s;
          issues = (if \<not> underscores_ok suggested_stem (truthy id_clean)
                    then issues @ [''Unexpected underscore count after normalization (check for missing title or extra separators).'']
                    else issues)
      in postprocess_before_ext suggested_stem issues)"

definition finalize ::
  "string \<Rightarrow> string \<Rightarrow> string \<Rightarrow> string option \<Rightarrow> string \<Rightarrow> string \<Rightarrow> string option \<Rightarrow> string list
     \<Rightarrow> string option \<times> string list \<times> bool" where
  \<comment> \<open>the closure \<open>finalize\<close>; \<open>original\<close> and \<open>ext\<close> are the variables it captures\<close>
  "finalize original ext prefix id_part date_token title_raw hard_rev issues0 =
     (let (suggested_stem, issues) =
            finalize_stem prefix id_part date_token title_raw hard_rev issues0
      in (Some (suggested_stem @ ext), issues, suggested_stem @ ext \<noteq> original))"

section \<open>Prefix families\<close>

definition IGNORE_PREFIXES :: "string list" where
  "IGNORE_PREFIXES = [''I-PAY'', ''PCO'', ''IDR'', ''NCR'', ''RFI'', ''SMTL'', ''UOR'']"

definition STANDARD_PREFIXES :: "string list" where
  "STANDARD_PREFIXES =
     [''COR'', ''LG'', ''MA'', ''MM'', ''PN'', ''PR'', ''REF'', ''RP'', ''SCH'', ''GA'', ''DA'',
      ''DES'', ''DV'', ''DW'', ''GIS'', ''IDR'', ''PH'', ''SOV'', ''BL'', ''SV'', ''TR'', ''VD'',
      ''IGA'', ''ORD'', ''OC'', ''RE'', ''ROW'', ''SSC'', ''SAF'', ''NCR'', ''TX'', ''UM'',
      ''FA'', ''FC'', ''SC'', ''CL'', ''PL'', ''SP'', ''SF'', ''WR'']"

definition REQUIRES_CSI :: "string list" where
  "REQUIRES_CSI = [''CA'', ''CT'', ''EN'', ''IR'', ''IC'', ''MD'', ''MT'', ''OM'', ''PD'', ''SM'', ''SD'']"

definition REQUIRES_ID_ANY :: "string list" where
  "REQUIRES_ID_ANY =
     [''SOP'', ''TF'', ''ATP'', ''BR'', ''CF'', ''CS'', ''COST'', ''ES'', ''LOE'', ''FVO'', ''PIF'',
      ''PMP'', ''PPS'', ''PRO'', ''LIQ'', ''RFP'', ''CN'', ''NTP'', ''SOW'', ''PT'', ''AU'']"

definition ID_LABEL :: "(string \<times> string) list" where
  "ID_LABEL =
     [(''CN'', ''ContractNumber''), (''NTP'', ''ContractNumber''), (''SOW'', ''ContractNumber''),
      (''PT'', ''Permit-ID''), (''SOP'', ''SOP-ID''), (''TF'', ''FormID''),
      (''ATP'', ''ProjectID''), (''BR'', ''ProjectID''), (''CF'', ''ProjectID''),
      (''CS'', ''ProjectID''), (''COST'', ''ProjectID''), (''ES'', ''ProjectID''),
      (''LOE'', ''ProjectID''), (''FVO'', ''ProjectID''), (''PIF'', ''ProjectID''),
      (''PMP'', ''ProjectID''), (''PPS'', ''ProjectID''), (''PRO'', ''ProjectID''),
      (''LIQ'', ''ProjectID''), (''RFP'', ''ProjectID''),
      (''PE'', ''EvaluationNumber''), (''AEA'', ''AllowanceNumber''),
      (''CO'', ''ChangeOrder-Number''), (''NOC'', ''ClaimNumber''),
      (''CBL'', ''BulletinNumber''), (''DL'', ''BulletinNumber''), (''FM'', ''FieldMemo-ID''),
      (''PO'', ''ProceedOrder-Number''), (''LNTP'', ''OrderNumber''),
      (''CI'', ''InvoiceNumber''), (''PA'', ''InvoiceNumber''),
      (''AU'', ''Audit-ID''), (''QA'', ''QMS-ID'')]"

definition id_label :: "string \<Rightarrow> string" where
  \<comment> \<open>\<open>ID_LABEL.get(prefix, "ID")\<close>\<close>
  "id_label p = (case map_of ID_LABEL p of Some l \<Rightarrow> l | None \<Rightarrow> ''ID'')"

definition em_dash :: string where
  \<comment> \<open>the dash U+2014 in three notes of the source, written as its three UTF-8 bytes: it
      is beyond the code points of \<open>char\<close>. Notes are compared and searched, never
      measured or parsed\<close>
  "em_dash = [CHR 0xE2, CHR 0x80, CHR 0x94]"

definition terminal_note :: string where
  "terminal_note = ''Does not follow CTA file naming convention.''"

definition re_prefix :: "string \<Rightarrow> bool" where
  \<comment> \<open>\<open>re.match\<close> of \<open>^[A-Z]{2,4}$\<close>\<close>
  "re_prefix p =
     (let t = drop_final_newline p in 2 \<le> length t \<and> length t \<le> 4 \<and> list_all is_upper_AZ t)"

definition m_space_before_ext :: "string \<Rightarrow> bool" where
  \<comment> \<open>\<open>SPACE_BEFORE_EXT.search\<close>, the pattern \<open>\s+\.[A-Za-z0-9]+$\<close>, finds a match: the
      letters and digits at the end follow a dot, and the dot follows white space\<close>
  "m_space_before_ext s =
     (let r = rev (drop_final_newline s);
          a = takeWhile is_alnum r
      in a \<noteq> [] \<and> (case dropWhile is_alnum r of
                      c # w # _ \<Rightarrow> c = CHR ''.'' \<and> is_space w
                    | _ \<Rightarrow> False))"

datatype outcome =
    Empty
  | Skip
  | Reject "string list"
  | Accept string "string option" string string "string option" "string list"

text \<open>
  An \<open>outcome\<close> is where \<open>audit_filename\<close> leaves through a \<open>return\<close>: the blank name,
  the exempt name, \<open>assemble_decision(None, issues)\<close> with the notes so far, or
  \<open>finalize(prefix, id_part, date_token, title_raw, hard_rev)\<close> with the notes so far.
\<close>

definition need_date :: "string option \<Rightarrow> string list \<Rightarrow> string option \<times> string list" where
  \<comment> \<open>the closure \<open>need_date\<close>. Its pair \<open>(d, ok)\<close> has \<open>ok = bool(d)\<close>, and \<open>d\<close> is
      read only when \<open>ok\<close> holds: the model answers \<open>Some d\<close> when \<open>ok\<close> holds and
      \<open>None\<close> when it does not\<close>
  "need_date tok issues =
     (if \<not> truthy tok then (None, issues)
      else case try_normalize_date (case tok of Some t \<Rightarrow> t | None \<Rightarrow> []) of
             (d, note) \<Rightarrow>
               (let issues = (if truthy d \<and> truthy note
                              then issues @ [case note of Some n \<Rightarrow> n | None \<Rightarrow> []]
                              else issues)
                in (if truthy d then d else None, issues)))"

fun scan_for_date :: "string list \<Rightarrow> nat \<Rightarrow> string list \<Rightarrow> (nat \<times> string) option \<times> string list" where
  \<comment> \<open>the loop \<open>for i, tok in enumerate(rest)\<close> of the COR and FDM families: the index
      and the date of the first token that is a date\<close>
  "scan_for_date [] i issues = (None, issues)"
| "scan_for_date (tok # toks) i issues =
     (case need_date (Some tok) issues of
        (Some d, issues') \<Rightarrow> (Some (i, d), issues')
      | (None, issues') \<Rightarrow> scan_for_date toks (Suc i) issues')"

definition family_COR :: "string list \<Rightarrow> string list \<Rightarrow> py_error + outcome" where
  "family_COR rest issues0 =
     (case scan_for_date rest 0 issues0 of
        (None, issues) \<Rightarrow>
          Inr (Reject (issues @ [''Invalid or missing date.'', terminal_note]))
      | (Some (idx_date, date_token), issues) \<Rightarrow>
          (let issues = (if idx_date \<noteq> 0
                         then issues @ [''Removed non-date token(s) before date.'']
                         else issues);
               title_raw = py_join ''_'' (drop (idx_date + 1) rest)
           in Inr (Accept ''COR'' None date_token title_raw None issues)))"

definition family_QA :: "string list \<Rightarrow> string list \<Rightarrow> py_error + outcome" where
  "family_QA rest issues0 =
     (if rest = [] then Inr (Reject (issues0 @ [terminal_note]))
      else bindE (py_index rest 0) (\<lambda>r0.
        case need_date (Some r0) issues0 of
          (Some d0, issues) \<Rightarrow>
            Inr (Accept ''QA'' None d0 (py_join ''_'' (drop 1 rest)) None issues)
        | (None, issues) \<Rightarrow>
            (case sanitize_id_any r0 issues ''QMS-ID'' of (idp, issues) \<Rightarrow>
               if length rest < 2 then Inr (Reject (issues @ [terminal_note]))
               else bindE (py_index rest 1) (\<lambda>r1.
                 case need_date (Some r1) issues of
                   (None, issues) \<Rightarrow>
                     Inr (Reject (issues @ [''Invalid or missing date.'', terminal_note]))
                 | (Some d1, issues) \<Rightarrow>
                     Inr (Accept ''QA'' (Some idp) d1 (py_join ''_'' (drop 2 rest)) None
                            issues)))))"

definition family_AU :: "string list \<Rightarrow> string list \<Rightarrow> py_error + outcome" where
  "family_AU rest issues0 =
     (if length rest < 2
      then Inr (Reject (issues0 @ [''Missing Audit-ID.'', terminal_note]))
      else bindE (py_index rest 0) (\<lambda>r0.
        case need_date (Some r0) issues0 of
          (Some d0, issues) \<Rightarrow>
            Inr (Reject (issues @
              [''Missing Audit-ID before date. Expected AU_[Audit-ID]_[Date]_[Title]_Rev##.'',
               terminal_note]))
        | (None, issues) \<Rightarrow>
            (case sanitize_id_any r0 issues ''Audit-ID'' of (idp, issues) \<Rightarrow>
               bindE (py_index rest 1) (\<lambda>r1.
                 case need_date (Some r1) issues of
                   (None, issues) \<Rightarrow>
                     Inr (Reject (issues @ [''Invalid or missing date.'', terminal_note]))
                 | (Some d1, issues) \<Rightarrow>
                     Inr (Accept ''AU'' (Some idp) d1 (py_join ''_'' (drop 2 rest)) None
                            issues)))))"

fun sanitize_ids :: "string list \<Rightarrow> string list \<Rightarrow> string list \<times> string list" where
  \<comment> \<open>\<open>[sanitize_id_any(t, issues, "ID") for t in id_tokens]\<close>\<close>
  "sanitize_ids [] issues = ([], issues)"
| "sanitize_ids (t # ts) issues =
     (case sanitize_id_any t issues ''ID'' of (t', issues') \<Rightarrow>
        (case sanitize_ids ts issues' of (ts', issues'') \<Rightarrow> (t' # ts', issues'')))"

definition family_FDM :: "string list \<Rightarrow> string list \<Rightarrow> py_error + outcome" where
  "family_FDM rest issues0 =
     (case scan_for_date rest 0 issues0 of
        (None, issues) \<Rightarrow>
          Inr (Reject (issues @ [''Missing TaskID/ContractID and/or date.'', terminal_note]))
      | (Some (date_idx, date_token), issues) \<Rightarrow>
          if date_idx = 0
          then Inr (Reject (issues @ [''Missing TaskID/ContractID and/or date.'', terminal_note]))
          else (let id_tokens = take 2 (take date_idx rest)
                in if id_tokens = []
                   then Inr (Reject (issues @ [''Missing TaskID/ContractID.'', terminal_note]))
                   else (case sanitize_ids id_tokens issues of (id_sanitized, issues) \<Rightarrow>
                     (let id_part = py_join ''-'' (filter (\<lambda>t. t \<noteq> []) id_sanitized);
                          title_raw = py_join ''_'' (drop (date_idx + 1) rest)
                      in Inr (Accept ''FDM'' (Some id_part) date_token title_raw None issues)))))"

datatype tf_step = Return outcome | Fall_through "string list"

definition tf_trailing_digits :: "string \<Rightarrow> string" where
  \<comment> \<open>the digits the second case of the TF override takes from what follows the date:
      group 1 of \<open>REV_ANY_INFIX.search(trailing) or EMBEDDED_REV.search(trailing)\<close>,
      or \<open>0\<close>\<close>
  "tf_trailing_digits trailing =
     (let m = (case rev_any_infix_search trailing of
                 Some (start, g) \<Rightarrow> Some g
               | None \<Rightarrow>
                   (case re_search m_embedded_rev trailing of
                      Some (start, n, g) \<Rightarrow> Some g
                    | None \<Rightarrow> None));
          digits = (case m of Some g \<Rightarrow> g | None \<Rightarrow> ''0'');
          digits = (if digits \<noteq> [] then take 2 (upper_O_to_0 digits) else ''0'')
      in digits)"

definition family_TF :: "string list \<Rightarrow> string list \<Rightarrow> py_error + tf_step" where
  \<comment> \<open>the TF override. In its second case the source also strips a copy index from
      \<open>trailing\<close>, a value it does not read afterwards\<close>
  "family_TF rest issues0 =
     (if rest = [] then Inr (Return (Reject (issues0 @ [terminal_note])))
      else bindE (py_index rest 0) (\<lambda>r0.
        case need_date (Some r0) issues0 of
          (Some d0, issues) \<Rightarrow>
            (let title_raw = py_join ''_'' (drop 1 rest)
             in Inr (Return (Accept ''TF'' None d0 title_raw None
                  (issues @ [''No FormID provided '' @ em_dash @ '' allowed for TF.'']))))
        | (None, issues) \<Rightarrow>
            bindE (index_or_None rest 1) (\<lambda>r1.
              case need_date r1 issues of
                (Some d1, issues) \<Rightarrow>
                  (let trailing = (if length rest > 2 then py_join ''_'' (drop 2 rest) else []);
                       digits = tf_trailing_digits trailing
                   in Inr (Return (Accept ''TF'' None d1 r0 (Some (''Rev'' @ digits))
                        (issues @
                         [''Reinterpreted first token as Title '' @ em_dash @
                            '' missing FormID allowed for TF.'',
                          ''Normalized revision element.'']))))
              | (None, issues) \<Rightarrow> Inr (Fall_through issues))))"

definition family_ID_ANY :: "string \<Rightarrow> string list \<Rightarrow> string list \<Rightarrow> py_error + outcome" where
  "family_ID_ANY prefix rest issues0 =
     (if length rest < 2
      then Inr (Reject (issues0 @ [''Missing '' @ id_label prefix @ '' and/or date.'',
                                   terminal_note]))
      else bindE (py_index rest 0) (\<lambda>r0.
        case need_date (Some r0) issues0 of
          (Some d0, issues) \<Rightarrow>
            (let lbl = id_label prefix
             in Inr (Reject (issues @
                  [''Missing '' @ lbl @ '' before date. Expected '' @ prefix @ ''_['' @ lbl @
                     '']_[Date]_[Title]_Rev##.'',
                   terminal_note])))
        | (None, issues) \<Rightarrow>
            (case sanitize_id_any r0 issues (id_label prefix) of (idp, issues) \<Rightarrow>
               bindE (py_index rest 1) (\<lambda>r1.
                 case need_date (Some r1) issues of
                   (None, issues) \<Rightarrow>
                     Inr (Reject (issues @ [''Invalid or missing date.'', terminal_note]))
                 | (Some d1, issues) \<Rightarrow>
                     Inr (Accept prefix (Some idp) d1 (py_join ''_'' (drop 2 rest)) None
                            issues)))))"

definition family_CSI :: "string \<Rightarrow> string list \<Rightarrow> string list \<Rightarrow> py_error + outcome" where
  \<comment> \<open>the group that requires a CSI section\<close>
  "family_CSI prefix rest issues0 =
     (if length rest < 2 then Inr (Reject (issues0 @ [''Missing CSI section.'']))
      else bindE (py_index rest 0) (\<lambda>r0.
        case need_date (Some r0) issues0 of
          (Some d_datefirst, issues) \<Rightarrow> Inr (Reject (issues @ [''Missing CSI section.'']))
        | (None, issues) \<Rightarrow>
            (case normalize_csi r0 of (csi, cnote) \<Rightarrow>
               if \<not> truthy csi
               then Inr (Reject (issues @
                      [''Invalid CSI-Section (require NN-NN-NN or NN-NN-NN-NN).'']))
               else (let issues = (if truthy cnote
                                   then issues @ [case cnote of Some n \<Rightarrow> n | None \<Rightarrow> []]
                                   else issues)
                     in bindE (py_index rest 1) (\<lambda>r1.
                          case need_date (Some r1) issues of
                            (None, issues) \<Rightarrow>
                              Inr (Reject (issues @ [''Invalid or missing date.'']))
                          | (Some d1, issues) \<Rightarrow>
                              Inr (Accept prefix csi d1 (py_join ''_'' (drop 2 rest)) None
                                     issues))))))"

definition family_optional_CSI ::
  "string \<Rightarrow> string list \<Rightarrow> string list \<Rightarrow> string list \<Rightarrow> py_error + outcome" where
  \<comment> \<open>the families PN, SP and WR, three blocks of the source that differ in the note
      \<open>omitted\<close> recorded when the date comes first: none for PN and SP, one for WR\<close>
  "family_optional_CSI prefix omitted rest issues0 =
     (if rest = [] then Inr (Reject (issues0 @ [terminal_note]))
      else bindE (py_index rest 0) (\<lambda>r0.
        case need_date (Some r0) issues0 of
          (Some d0, issues) \<Rightarrow>
            Inr (Accept prefix None d0 (py_join ''_'' (drop 1 rest)) None (issues @ omitted))
        | (None, issues) \<Rightarrow>
            (case normalize_csi r0 of (csi, cnote) \<Rightarrow>
               if truthy csi then
                 bindE (index_or_None rest 1) (\<lambda>r1.
                   case need_date r1 issues of
                     (None, issues) \<Rightarrow>
                       Inr (Reject (issues @ [''Invalid or missing date.'', terminal_note]))
                   | (Some d1, issues) \<Rightarrow>
                       (let issues = (if truthy cnote
                                      then issues @ [case cnote of Some n \<Rightarrow> n | None \<Rightarrow> []]
                                      else issues)
                        in Inr (Accept prefix csi d1 (py_join ''_'' (drop 2 rest)) None
                                  issues)))
               else Inr (Reject (issues @ [terminal_note])))))"

definition family_RE :: "string list \<Rightarrow> string list \<Rightarrow> py_error + outcome" where
  "family_RE rest issues0 =
     (if rest = [] then Inr (Reject (issues0 @ [terminal_note]))
      else bindE (py_index rest 0) (\<lambda>r0.
        case need_date (Some r0) issues0 of
          (None, issues) \<Rightarrow>
            Inr (Reject (issues @ [''Invalid or missing date.'', terminal_note]))
        | (Some d0, issues) \<Rightarrow>
            Inr (Accept ''RE'' None d0 (py_join ''_'' (drop 1 rest)) None issues)))"

definition family_STANDARD :: "string \<Rightarrow> string list \<Rightarrow> string list \<Rightarrow> py_error + outcome" where
  "family_STANDARD prefix rest issues0 =
     bindE (if rest \<noteq> [] then bindE (py_index rest 0) (\<lambda>x. Inr (Some x)) else Inr None) (\<lambda>r0.
       case need_date r0 issues0 of
         (None, issues) \<Rightarrow>
           Inr (Reject (issues @ [''Invalid or missing date.'', terminal_note]))
       | (Some d0, issues) \<Rightarrow>
           Inr (Accept prefix None d0 (py_join ''_'' (drop 1 rest)) None issues))"

definition dispatch :: "string \<Rightarrow> string list \<Rightarrow> string list \<Rightarrow> py_error + outcome" where
  \<comment> \<open>the chain of tests on the prefix, in the order of the source\<close>
  "dispatch prefix rest issues0 =
     (if prefix = ''COR'' then family_COR rest issues0
      else if prefix = ''QA'' then family_QA rest issues0
      else if prefix = ''AU'' then family_AU rest issues0
      else if prefix = ''FDM'' then family_FDM rest issues0
      else bindE (if prefix = ''TF'' then family_TF rest issues0 else Inr (Fall_through issues0))
        (\<lambda>step. case step of
           Return out \<Rightarrow> Inr out
         | Fall_through issues \<Rightarrow>
             if prefix \<in> set REQUIRES_ID_ANY then family_ID_ANY prefix rest issues
             else if prefix \<in> set REQUIRES_CSI then family_CSI prefix rest issues
             else if prefix = ''PN'' then family_optional_CSI ''PN'' [] rest issues
             else if prefix = ''SP'' then family_optional_CSI ''SP'' [] rest issues
             else if prefix = ''WR'' then
               family_optional_CSI ''WR''
                 [''No CSI provided '' @ em_dash @ '' allowed for overall warranty.''] rest issues
             else if prefix = ''RE'' then family_RE rest issues
             else if prefix \<in> set STANDARD_PREFIXES then family_STANDARD prefix rest issues
             else Inr (Reject (issues @ [terminal_note]))))"

section \<open>The audit of one name\<close>

definition audit_tokens :: "string \<Rightarrow> string \<Rightarrow> string list \<times> string list" where
  \<comment> \<open>the notes and the tokens when the dispatch begins\<close>
  "audit_tokens original_name original =
     (let issues = (if m_space_before_ext original_name
                    then [''Removed space before file extension.''] else []);
          stem = fst (split_ext original);
          (stem, issues) = (if contains ''__'' stem
                            then (re_sub m_multi_unders ''_'' stem,
                                  issues @ [''Removed double underscore.''])
                            else (stem, issues));
          tokens = filter (\<lambda>t. t \<noteq> []) (split_on (CHR ''_'') stem)
      in (issues, tokens))"

definition audit_outcome :: "string \<Rightarrow> py_error + outcome" where
  \<comment> \<open>\<open>audit_filename\<close> up to the \<open>return\<close> it leaves through\<close>
  "audit_outcome original_name =
     (let original = strip original_name in
      if original = [] then Inr Empty
      else if list_ex (startswith original) IGNORE_PREFIXES then Inr Skip
      else case audit_tokens original_name original of (issues, tokens) \<Rightarrow>
        if length tokens < 2 then Inr (Reject (issues @ [terminal_note]))
        else bindE (py_index tokens 0) (\<lambda>prefix.
          let rest = drop 1 tokens in
          if \<not> re_prefix prefix then Inr (Reject (issues @ [terminal_note]))
          else dispatch prefix rest issues))"

definition audit_filename :: "string \<Rightarrow> py_error + (string option \<times> string list \<times> bool)" where
  "audit_filename original_name =
     bindE (audit_outcome original_name) (\<lambda>out.
       Inr (case out of
              Empty \<Rightarrow> (Some [], [''Empty value''], True)
            | Skip \<Rightarrow> (None, [], False)
            | Reject issues \<Rightarrow> assemble_decision None issues
            | Accept prefix id_part date_token title_raw hard_rev issues \<Rightarrow>
                (let original = strip original_name
                 in finalize original (snd (split_ext original)) prefix id_part date_token
                      title_raw hard_rev issues)))"

section \<open>Shapes of the assembled name\<close>

text \<open>
  The predicates and the closed forms in which the properties of the audit are stated.
  They describe results; the audit itself does not call them.
\<close>

definition rev_digits :: "string \<Rightarrow> bool" where
  \<comment> \<open>one or two digits\<close>
  "rev_digits ds = (ds \<noteq> [] \<and> length ds \<le> 2 \<and> list_all is_digit ds)"

definition is_rev_token :: "string \<Rightarrow> bool" where
  \<comment> \<open>\<open>Rev\<close> followed by one or two digits\<close>
  "is_rev_token rv =
     (take 3 rv = ''Rev'' \<and>
      (let ds = drop 3 rv in ds \<noteq> [] \<and> length ds \<le> 2 \<and> list_all is_digit ds))"

definition hard_rev_ok :: "string option \<Rightarrow> bool" where
  \<comment> \<open>a revision fixed by the family, when there is one, is a revision token\<close>
  "hard_rev_ok hr = (case hr of None \<Rightarrow> True | Some h \<Rightarrow> is_rev_token h)"

definition id_segment :: "string option \<Rightarrow> string" where
  \<comment> \<open>the identifier and its separator, when the identifier is present\<close>
  "id_segment idc = (case idc of Some i \<Rightarrow> if i \<noteq> [] then i @ ''_'' else [] | None \<Rightarrow> [])"

definition canonical_stem :: "string \<Rightarrow> string option \<Rightarrow> string \<Rightarrow> string \<Rightarrow> string \<Rightarrow> string" where
  \<comment> \<open>\<open>prefix[_identifier]_date[_title]_revision\<close>: an empty title leaves no separator\<close>
  "canonical_stem p idc d t r =
     p @ ''_'' @ id_segment idc @ d @ ''_'' @ (if t = [] then [] else t @ ''_'') @ r"

definition id_ok :: "string option \<Rightarrow> bool" where
  \<comment> \<open>an identifier, when there is one, has letters, digits and hyphens only\<close>
  "id_ok idp = (case idp of None \<Rightarrow> True | Some i \<Rightarrow> list_all is_alnum_dash i)"

definition underscore_note :: string where
  "underscore_note = ''Unexpected underscore count after normalization (check for missing title or extra separators).''"

definition family_prefix :: "string \<Rightarrow> bool" where
  \<comment> \<open>the prefixes for which the dispatch has a family\<close>
  "family_prefix p =
     (p \<in> set [''COR'', ''QA'', ''AU'', ''FDM'', ''TF'', ''PN'', ''SP'', ''WR'', ''RE''] \<or>
      p \<in> set REQUIRES_ID_ANY \<or> p \<in> set REQUIRES_CSI \<or> p \<in> set STANDARD_PREFIXES)"

definition csi_failure_notes :: "string list" where
  \<comment> \<open>the last notes of the failure paths of the group that requires a CSI section\<close>
  "csi_failure_notes = [''Missing CSI section.'',
                        ''Invalid CSI-Section (require NN-NN-NN or NN-NN-NN-NN).'',
                        ''Invalid or missing date.'']"

definition clean_id :: "string option \<Rightarrow> string option" where
  \<comment> \<open>the identifier as it stands in the name: a family's identifier without its
      underscores, and none when the family gave none or an empty one\<close>
  "clean_id idp =
     (case idp of
        Some i \<Rightarrow> if i \<noteq> [] then Some (filter (\<lambda>c. c \<noteq> CHR ''_'') i) else None
      | None \<Rightarrow> None)"

definition full_length :: "string \<Rightarrow> string option \<Rightarrow> string \<Rightarrow> string \<Rightarrow> string \<Rightarrow> nat" where
  \<comment> \<open>the length of the stem with the whole title \<open>t0\<close>, counted with the separator of
      the title also when the title is empty\<close>
  "full_length p idc d t0 r =
     length p + 1 + length (id_segment idc) + length d + 1 + length t0 + 1 + length r"

definition truncation_note :: string where
  "truncation_note = ''File name exceeds 64-character limit (title truncated).''"

definition csi_required :: "string \<Rightarrow> bool" where
  \<comment> \<open>the name has at least two tokens and the first is a prefix of the group that
      requires a CSI section\<close>
  "csi_required n =
     (let tokens = snd (audit_tokens n (strip n))
      in 2 \<le> length tokens \<and> hd tokens \<in> set REQUIRES_CSI)"

section \<open>Facts about the string primitives\<close>

lemma strip_id:
  assumes "s \<noteq> []" "\<not> is_space (hd s)" "\<not> is_space (last s)"
  shows "strip s = s"
proof -
  from assms(1,2) have l: "lstrip s = s"
    by (cases s) (simp_all add: lstrip_def)
  from assms(1,3) have "dropWhile is_space (rev s) = rev s"
    by (cases s rule: rev_cases) simp_all
  then show ?thesis
    by (simp add: strip_def rstrip_def l)
qed

lemma digit_not_special:
  assumes "is_digit c"
  shows "c \<noteq> CHR ''/''" "c \<noteq> CHR ''-''" "c \<noteq> CHR ''_''" "c \<noteq> CHR ''.''"
    "c \<noteq> CHR 0x0A" "\<not> is_space c"
  using assms by (auto simp: is_digit_def is_space_def)

lemma not_digit_ground:
  "\<not> is_digit (CHR ''/'')" "\<not> is_digit (CHR ''-'')" "\<not> is_digit (CHR 0x0A)"
  by (simp_all add: is_digit_def)

lemma is_digit_0: "is_digit (CHR ''0'')"
  by (simp add: is_digit_def)

lemmas digit_facts = digit_not_special not_digit_ground is_digit_0

lemma digit_val_le: "digit_val c \<le> 9"
  by (auto simp: digit_val_def split: option.splits)

lemma show_nat_small: "n < 10 \<Longrightarrow> show_nat n = [digit_char n]"
  by (simp add: show_nat.simps)

lemma fmt02d_length: "n < 100 \<Longrightarrow> length (fmt02d n) = 2"
proof (cases "n < 10")
  case True
  then show ?thesis by (simp add: fmt02d_def show_nat_small)
next
  case False
  assume "n < 100"
  then have "n div 10 < 10" by simp
  then have "show_nat n = [digit_char (n div 10), digit_char n]"
    using False by (subst show_nat.simps) (simp add: show_nat_small)
  then show ?thesis using False by (simp add: fmt02d_def)
qed

lemma int_of_digits_small: "length s \<le> 2 \<Longrightarrow> int_of_digits s < 100"
proof -
  assume "length s \<le> 2"
  then consider "s = []" | a where "s = [a]" | a b where "s = [a, b]"
    by (cases s; cases "tl s"; cases "tl (tl s)") auto
  then show ?thesis
  proof cases
    case 1
    then show ?thesis by (simp add: int_of_digits_def)
  next
    case 2
    then show ?thesis using digit_val_le [of a] by (simp add: int_of_digits_def)
  next
    case 3
    then show ?thesis using digit_val_le [of a] digit_val_le [of b]
      by (simp add: int_of_digits_def)
  qed
qed

lemma short_disj:
  assumes "1 \<le> length s" "length s \<le> 2"
  shows "(\<exists>a. s = [a]) \<or> (\<exists>a b. s = [a, b])"
  using assms by (cases s; cases "tl s"; cases "tl (tl s)") auto

lemma four_digits_ex:
  assumes "digits_n 4 s"
  shows "\<exists>a b c d. s = [a, b, c, d] \<and> is_digit a \<and> is_digit b \<and> is_digit c \<and> is_digit d"
  using assms by (auto simp: digits_n_def length_Suc_conv numeral_eq_Suc)

lemma two_digits_ex:
  assumes "digits_n 2 s"
  shows "\<exists>a b. s = [a, b] \<and> is_digit a \<and> is_digit b"
  using assms by (auto simp: digits_n_def length_Suc_conv numeral_eq_Suc)

section \<open>The date normalizer on slash dates\<close>

lemmas date_defs = try_normalize_date_def re_date_strict_def re_date_dashed_def
  re_date_mdy_def re_date_ymd_def re_date_nine_def digits_1_2_def digits_n_def at_dollar_def

lemma try_normalize_date_mdy:
  assumes mo: "list_all is_digit mo" "1 \<le> length mo" "length mo \<le> 2"
      and d: "list_all is_digit d" "1 \<le> length d" "length d \<le> 2"
      and y: "digits_n 4 y"
  shows "try_normalize_date (mo @ ''/'' @ d @ ''/'' @ y) =
           (Some (y @ fmt02d (int_of_digits mo) @ fmt02d (int_of_digits d)),
            Some ''Normalized date from M/D/YYYY'')"
  using short_disj [OF mo(2,3)] short_disj [OF d(2,3)] four_digits_ex [OF y] mo(1) d(1)
  by (auto simp: date_defs strip_id digit_facts)

lemma try_normalize_date_ymd:
  assumes mo: "list_all is_digit mo" "1 \<le> length mo" "length mo \<le> 2"
      and d: "list_all is_digit d" "1 \<le> length d" "length d \<le> 2"
      and y: "digits_n 4 y"
  shows "try_normalize_date (y @ ''/'' @ mo @ ''/'' @ d) =
           (Some (y @ fmt02d (int_of_digits mo) @ fmt02d (int_of_digits d)),
            Some ''Normalized date from YYYY/M/D'')"
  using short_disj [OF mo(2,3)] short_disj [OF d(2,3)] four_digits_ex [OF y] mo(1) d(1)
  by (auto simp: date_defs strip_id digit_facts)

lemma try_normalize_date_nine:
  assumes "digits_n 4 y" "digits_n 2 mo" "digits_n 2 d"
  shows "try_normalize_date (y @ ''0'' @ mo @ d) =
           (if valid_date (int_of_digits y) (int_of_digits mo) (int_of_digits d)
            then (Some (y @ mo @ d),
                  Some ''Normalized date from malformed token (dropped stray 0).'')
            else (None, None))"
  using four_digits_ex [OF assms(1)] two_digits_ex [OF assms(2)] two_digits_ex [OF assms(3)]
  by (auto simp: date_defs strip_id digit_facts)

lemma try_normalize_date_strict:
  assumes "digits_n 4 y" "digits_n 2 mo" "digits_n 2 d"
  shows "try_normalize_date (y @ mo @ d) = (Some (y @ mo @ d), None)"
  using four_digits_ex [OF assms(1)] two_digits_ex [OF assms(2)] two_digits_ex [OF assms(3)]
  by (auto simp: date_defs strip_id digit_facts)

lemma try_normalize_date_dashed:
  assumes "digits_n 4 y" "digits_n 2 mo" "digits_n 2 d"
  shows "try_normalize_date (y @ ''-'' @ mo @ ''-'' @ d) =
           (Some (y @ mo @ d), Some ''Normalized date from YYYY-MM-DD'')"
  using four_digits_ex [OF assms(1)] two_digits_ex [OF assms(2)] two_digits_ex [OF assms(3)]
  by (auto simp: date_defs strip_id digit_facts)

text \<open>
  Claim C10. A token \<open>M/D/YYYY\<close> or \<open>YYYY/M/D\<close> whose month and day have one or two
  digits is repaired by \<open>try_normalize_date\<close> to the year followed by the month and the
  day, each padded to two digits: eight characters, whatever the month and the day are.
  No calendar check is made on these two paths, nor on the two others that come before
  them: eight digits are returned as they are, and \<open>YYYY-MM-DD\<close> loses its hyphens,
  whatever the digits are. The nine-digit path \<open>YYYY0MMDD\<close> is the one that asks whether
  the date exists: it returns the eight digits when it does and nothing when it does not.
\<close>

theorem slash_dates_repaired_unvalidated:
  assumes "list_all is_digit mo" "1 \<le> length mo" "length mo \<le> 2"
      and "list_all is_digit d" "1 \<le> length d" "length d \<le> 2"
      and "digits_n 4 y" "digits_n 2 m2" "digits_n 2 d2"
  shows "try_normalize_date (mo @ ''/'' @ d @ ''/'' @ y) =
           (Some (y @ fmt02d (int_of_digits mo) @ fmt02d (int_of_digits d)),
            Some ''Normalized date from M/D/YYYY'') \<and>
         try_normalize_date (y @ ''/'' @ mo @ ''/'' @ d) =
           (Some (y @ fmt02d (int_of_digits mo) @ fmt02d (int_of_digits d)),
            Some ''Normalized date from YYYY/M/D'') \<and>
         length (y @ fmt02d (int_of_digits mo) @ fmt02d (int_of_digits d)) = 8 \<and>
         try_normalize_date (y @ m2 @ d2) = (Some (y @ m2 @ d2), None) \<and>
         try_normalize_date (y @ ''-'' @ m2 @ ''-'' @ d2) =
           (Some (y @ m2 @ d2), Some ''Normalized date from YYYY-MM-DD'') \<and>
         try_normalize_date (y @ ''0'' @ m2 @ d2) =
           (if valid_date (int_of_digits y) (int_of_digits m2) (int_of_digits d2)
            then (Some (y @ m2 @ d2),
                  Some ''Normalized date from malformed token (dropped stray 0).'')
            else (None, None))"
proof -
  have len: "length (y @ fmt02d (int_of_digits mo) @ fmt02d (int_of_digits d)) = 8"
    using assms by (simp add: fmt02d_length int_of_digits_small digits_n_def)
  show ?thesis
    using try_normalize_date_mdy [OF assms(1-7)] try_normalize_date_ymd [OF assms(1-7)] len
      try_normalize_date_strict [OF assms(7-9)] try_normalize_date_dashed [OF assms(7-9)]
      try_normalize_date_nine [OF assms(7-9)]
    by blast
qed

text \<open>
  The theorem at month 13 and day 45, at the 29th of February of a leap year and at the
  29th of February of a common year.
\<close>

theorem slash_dates_repaired_unvalidated_witness:
  "try_normalize_date ''13/45/2024'' =
     (Some ''20241345'', Some ''Normalized date from M/D/YYYY'') \<and>
   try_normalize_date ''2024/13/45'' =
     (Some ''20241345'', Some ''Normalized date from YYYY/M/D'') \<and>
   length ''20241345'' = 8 \<and>
   try_normalize_date ''20241345'' = (Some ''20241345'', None) \<and>
   try_normalize_date ''2024-13-45'' =
     (Some ''20241345'', Some ''Normalized date from YYYY-MM-DD'') \<and>
   try_normalize_date ''202401345'' = (None, None) \<and>
   try_normalize_date ''2/9/2024'' =
     (Some ''20240209'', Some ''Normalized date from M/D/YYYY'') \<and>
   try_normalize_date ''202400229'' =
     (Some ''20240229'', Some ''Normalized date from malformed token (dropped stray 0).'') \<and>
   try_normalize_date ''202300229'' = (None, None)"
  using slash_dates_repaired_unvalidated [of "''13''" "''45''" "''2024''" "''13''" "''45''"]
    slash_dates_repaired_unvalidated [of "''2''" "''9''" "''2024''" "''02''" "''29''"]
    slash_dates_repaired_unvalidated [of "''2''" "''9''" "''2023''" "''02''" "''29''"]
  by (simp add: digits_n_def is_digit_def fmt02d_def int_of_digits_def digit_val_def
        show_nat.simps digit_char_def valid_date_def days_in_month_def is_leap_def)

section \<open>The CSI normalizer on a malformed hyphenation\<close>

lemma normalize_csi_never_hyphenation_note:
  "snd (normalize_csi token) \<noteq> Some ''Corrected malformed CSI hyphenation''"
  by (simp add: normalize_csi_def Let_def)

text \<open>
  Claim C6. The token \<open>03-0708\<close> contains a hyphen, is not in canonical form and has six
  digits. \<open>normalize_csi\<close> repairs it to \<open>03-07-08\<close>, but the note is the one of the
  digit-count test, which comes first: the branch that would give the hyphenation note is
  never reached.
\<close>

theorem normalize_csi_malformed_hyphenation_note:
  "normalize_csi ''03-0708'' = (Some ''03-07-08'', Some ''Auto-formatted CSI from 6 digits'')"
  by (simp add: normalize_csi_def strip_def lstrip_def rstrip_def is_space_def re_csi3_def
        re_csi4_def digits_n_def is_digit_def csi_segments3_def at_dollar_def)

section \<open>Dates that the normalizer returns\<close>

lemma rstrip_last: "rstrip s \<noteq> [] \<Longrightarrow> \<not> is_space (last (rstrip s))"
proof -
  assume a: "rstrip s \<noteq> []"
  then have "dropWhile is_space (rev s) \<noteq> []" by (simp add: rstrip_def)
  then have "\<not> is_space (hd (dropWhile is_space (rev s)))" by (rule hd_dropWhile)
  then show ?thesis using a by (simp add: rstrip_def last_rev)
qed

lemma strip_last: "strip s \<noteq> [] \<Longrightarrow> \<not> is_space (last (strip s))"
  unfolding strip_def by (rule rstrip_last)

lemma is_space_newline: "is_space (CHR 0x0A)"
  by (simp add: is_space_def)

lemma strip_no_final_newline: "strip s \<noteq> [] \<Longrightarrow> last (strip s) \<noteq> CHR 0x0A"
  using strip_last [of s] is_space_newline by auto

lemma at_dollar_no_newline:
  assumes "at_dollar (drop n s)" and "s \<noteq> [] \<Longrightarrow> last s \<noteq> CHR 0x0A"
  shows "drop n s = []"
proof (rule ccontr)
  assume "drop n s \<noteq> []"
  with assms(1) have d: "drop n s = [CHR 0x0A]" by (simp add: at_dollar_def)
  have "take n s @ drop n s = s" by (rule append_take_drop_id)
  with d have e: "take n s @ [CHR 0x0A] = s" by simp
  then have "s \<noteq> []" by auto
  moreover have "last s = CHR 0x0A" using e last_snoc by metis
  ultimately show False using assms(2) by simp
qed

lemma at_dollar_strip: "at_dollar (drop n (strip s)) \<Longrightarrow> drop n (strip s) = []"
  by (erule at_dollar_no_newline) (rule strip_no_final_newline)

lemma digit_table: "k < 10 \<Longrightarrow> is_digit (''0123456789'' ! k)"
  by (auto simp: less_Suc_eq numeral_eq_Suc is_digit_def)

lemma is_digit_digit_char: "is_digit (digit_char n)"
  by (simp add: digit_char_def digit_table)

lemma fmt02d_digits: "n < 100 \<Longrightarrow> digits_n 2 (fmt02d n)"
proof (cases "n < 10")
  case True
  then show ?thesis by (simp add: fmt02d_def show_nat_small digits_n_def is_digit_digit_char is_digit_0)
next
  case False
  assume "n < 100"
  then have "n div 10 < 10" by simp
  then have "show_nat n = [digit_char (n div 10), digit_char n]"
    using False by (subst show_nat.simps) (simp add: show_nat_small)
  then show ?thesis using False by (simp add: fmt02d_def digits_n_def is_digit_digit_char)
qed

lemma digits_n_append: "digits_n a x \<Longrightarrow> digits_n b y \<Longrightarrow> digits_n (a + b) (x @ y)"
  by (simp add: digits_n_def)

lemma digits_1_2_len: "digits_1_2 s = Some (g, r) \<Longrightarrow> length g \<le> 2"
  by (auto simp: digits_1_2_def Let_def split: if_splits)

lemma re_date_mdy_groups:
  "re_date_mdy s = Some (mo, d, y) \<Longrightarrow> length mo \<le> 2 \<and> length d \<le> 2 \<and> digits_n 4 y"
  by (auto simp: re_date_mdy_def digits_1_2_def Let_def split: option.splits if_splits)

lemma re_date_ymd_groups:
  "re_date_ymd s = Some (y, mo, d) \<Longrightarrow> length mo \<le> 2 \<and> length d \<le> 2 \<and> digits_n 4 y"
  by (auto simp: re_date_ymd_def digits_1_2_def Let_def split: option.splits if_splits)

lemma re_date_dashed_groups:
  "re_date_dashed s = Some (y, mo, d) \<Longrightarrow> digits_n 4 y \<and> digits_n 2 mo \<and> digits_n 2 d"
  by (auto simp: re_date_dashed_def Let_def split: if_splits)

lemma re_date_nine_groups:
  "re_date_nine s = Some (y, mo, d) \<Longrightarrow> digits_n 4 y \<and> digits_n 2 mo \<and> digits_n 2 d"
  by (auto simp: re_date_nine_def Let_def split: if_splits)

lemma re_date_strict_strip:
  assumes "re_date_strict (strip t)"
  shows "digits_n 8 (strip t)"
proof -
  from assms have d: "digits_n 8 (take 8 (strip t))" and a: "at_dollar (drop 8 (strip t))"
    by (simp_all add: re_date_strict_def)
  from a have "drop 8 (strip t) = []" by (rule at_dollar_strip)
  then have "take 8 (strip t) = strip t" by simp
  with d show ?thesis by simp
qed

lemma digits_8_of_parts:
  assumes "digits_n 4 y" "digits_n 2 mo" "digits_n 2 d"
  shows "digits_n 8 (y @ mo @ d)"
  using assms by (simp add: digits_n_def)

lemma try_normalize_date_digits:
  assumes "try_normalize_date t = (Some d, note)"
  shows "digits_n 8 d"
proof -
  let ?s = "strip t"
  have slash: "digits_n 8 (y @ fmt02d (int_of_digits mo) @ fmt02d (int_of_digits dd))"
    if "length mo \<le> 2" "length dd \<le> 2" "digits_n 4 y" for y mo dd
    using that by (intro digits_8_of_parts fmt02d_digits int_of_digits_small)
  consider (empty) "?s = []"
    | (strict) "?s \<noteq> []" "re_date_strict ?s"
    | (dashed) y mo dd where "?s \<noteq> []" "\<not> re_date_strict ?s" "re_date_dashed ?s = Some (y, mo, dd)"
    | (mdy) mo dd y where "?s \<noteq> []" "\<not> re_date_strict ?s" "re_date_dashed ?s = None"
        "re_date_mdy ?s = Some (mo, dd, y)"
    | (ymd) y mo dd where "?s \<noteq> []" "\<not> re_date_strict ?s" "re_date_dashed ?s = None"
        "re_date_mdy ?s = None" "re_date_ymd ?s = Some (y, mo, dd)"
    | (nine) y mo dd where "?s \<noteq> []" "\<not> re_date_strict ?s" "re_date_dashed ?s = None"
        "re_date_mdy ?s = None" "re_date_ymd ?s = None" "re_date_nine ?s = Some (y, mo, dd)"
    | (none) "?s \<noteq> []" "\<not> re_date_strict ?s" "re_date_dashed ?s = None"
        "re_date_mdy ?s = None" "re_date_ymd ?s = None" "re_date_nine ?s = None"
    by (metis option.exhaust prod_cases3)
  then show ?thesis
  proof cases
    case empty
    then show ?thesis using assms by (simp add: try_normalize_date_def)
  next
    case strict
    then have "d = ?s" using assms by (simp add: try_normalize_date_def)
    then show ?thesis using re_date_strict_strip strict by simp
  next
    case dashed
    then have "d = y @ mo @ dd" using assms by (simp add: try_normalize_date_def)
    then show ?thesis using re_date_dashed_groups [OF dashed(3)] by (simp add: digits_8_of_parts)
  next
    case mdy
    then have "d = y @ fmt02d (int_of_digits mo) @ fmt02d (int_of_digits dd)"
      using assms by (simp add: try_normalize_date_def)
    then show ?thesis using re_date_mdy_groups [OF mdy(4)] slash by simp
  next
    case ymd
    then have "d = y @ fmt02d (int_of_digits mo) @ fmt02d (int_of_digits dd)"
      using assms by (simp add: try_normalize_date_def)
    then show ?thesis using re_date_ymd_groups [OF ymd(5)] slash by simp
  next
    case nine
    then have "d = y @ mo @ dd" using assms by (simp add: try_normalize_date_def split: if_splits)
    then show ?thesis using re_date_nine_groups [OF nine(6)] by (simp add: digits_8_of_parts)
  next
    case none
    then show ?thesis using assms by (simp add: try_normalize_date_def)
  qed
qed

lemma need_date_None: "need_date tok issues = (None, issues') \<Longrightarrow> issues' = issues"
  by (auto simp: need_date_def Let_def truthy_def split: if_splits prod.splits option.splits)

lemma need_date_Some: "need_date tok issues = (Some d, issues') \<Longrightarrow> digits_n 8 d"
  by (auto simp: need_date_def Let_def truthy_def split: if_splits prod.splits option.splits
      dest: try_normalize_date_digits)

section \<open>Generic facts about substitution\<close>

lemma re_sub_groups_set:
  "set (fst (re_sub_groups m rep b s)) \<subseteq> set s \<union> set rep"
proof (induction m rep b s rule: re_sub_groups.induct)
  case (1 m rep at_start)
  then show ?case by simp
next
  case (2 m rep at_start c cs)
  show ?case
  proof (cases "m at_start (c # cs)")
    case None
    then show ?thesis using 2(1) by (auto split: prod.splits)
  next
    case (Some a)
    obtain n g where a: "a = (n, g)" by (cases a)
    show ?thesis
    proof (cases n)
      case 0
      then show ?thesis using 2(2) [of a n g] Some a by (auto split: prod.splits)
    next
      case (Suc k)
      have "set (drop k cs) \<subseteq> set cs" by (rule set_drop_subset)
      then show ?thesis using 2(3) [of a n g k] Some a Suc by (auto split: prod.splits)
    qed
  qed
qed

lemma re_sub_set: "set (re_sub m rep s) \<subseteq> set s \<union> set rep"
  by (simp add: re_sub_def re_sub_groups_set)

lemma re_sub_groups_length:
  "length rep \<le> 1 \<Longrightarrow> length (fst (re_sub_groups m rep b s)) \<le> length s"
proof (induction m rep b s rule: re_sub_groups.induct)
  case (1 m rep at_start)
  then show ?case by simp
next
  case (2 m rep at_start c cs)
  show ?case
  proof (cases "m at_start (c # cs)")
    case None
    then show ?thesis using 2(1) 2(4) by (auto split: prod.splits)
  next
    case (Some a)
    obtain n g where a: "a = (n, g)" by (cases a)
    show ?thesis
    proof (cases n)
      case 0
      then show ?thesis using 2(2) [of a n g] 2(4) Some a by (auto split: prod.splits)
    next
      case (Suc k)
      then show ?thesis using 2(3) [of a n g k] 2(4) Some a by (auto split: prod.splits)
    qed
  qed
qed

lemma re_sub_length: "length rep \<le> 1 \<Longrightarrow> length (re_sub m rep s) \<le> length s"
  by (simp add: re_sub_def re_sub_groups_length)

lemma re_sub_groups_all:
  assumes "\<forall>b r n g. m b r = Some (n, g) \<longrightarrow> P g"
  shows "list_all P (snd (re_sub_groups m rep b s))"
  using assms
proof (induction m rep b s rule: re_sub_groups.induct)
  case (1 m rep at_start)
  then show ?case by simp
next
  case (2 m rep at_start c cs)
  note mP = "2.prems"
  show ?case
  proof (cases "m at_start (c # cs)")
    case None
    then show ?thesis using "2.IH"(1) mP by (auto split: prod.splits)
  next
    case (Some a)
    obtain n g where a: "a = (n, g)" by (cases a)
    show ?thesis
    proof (cases n)
      case 0
      then show ?thesis using "2.IH"(2) [of a n g] mP Some a by (auto split: prod.splits)
    next
      case (Suc k)
      have "P g" using mP Some a by blast
      then show ?thesis using "2.IH"(3) [of a n g k] mP Some a Suc by (auto split: prod.splits)
    qed
  qed
qed

section \<open>The revision token\<close>

lemma is_rev_tokenI:
  "ds \<noteq> [] \<Longrightarrow> length ds \<le> 2 \<Longrightarrow> list_all is_digit ds \<Longrightarrow> is_rev_token (''Rev'' @ ds)"
  by (simp add: is_rev_token_def)

lemma upper_O_to_0_char:
  "is_dO c \<Longrightarrow> is_digit (if c = CHR ''o'' \<or> c = CHR ''O'' then CHR ''0'' else c)"
  by (auto simp: is_dO_def is_digit_def)

lemma upper_O_to_0_digits: "list_all is_dO g \<Longrightarrow> list_all is_digit (upper_O_to_0 g)"
  unfolding upper_O_to_0_def by (induction g) (simp_all add: upper_O_to_0_char del: set_simps)

lemma upper_O_to_0_Nil [simp]: "(upper_O_to_0 g = []) = (g = [])"
  by (simp add: upper_O_to_0_def)

lemma upper_O_to_0_length [simp]: "length (upper_O_to_0 g) = length g"
  by (simp add: upper_O_to_0_def)

lemma list_all_take: "list_all P xs \<Longrightarrow> list_all P (take n xs)"
  by (auto simp: list_all_iff dest: in_set_takeD)

lemma rev_any_infix_search_group:
  "rev_any_infix_search s = Some (st, g) \<Longrightarrow> list_all is_dO g \<and> g \<noteq> [] \<and> length g \<le> 2"
  by (auto simp: rev_any_infix_search_def Let_def list_all_iff split: if_splits dest: set_takeWhileD)

lemma canon_rev_search_group:
  "canon_rev_search s = Some (st, g) \<Longrightarrow> list_all is_digit g \<and> g \<noteq> [] \<and> length g \<le> 2"
  by (auto simp: canon_rev_search_def Let_def list_all_iff split: if_splits dest: set_takeWhileD)

lemma embedded_rev_body_group:
  "embedded_rev_body r = Some (n, g) \<Longrightarrow> list_all is_dO g \<and> g \<noteq> [] \<and> length g \<le> 2"
  by (auto simp: embedded_rev_body_def Let_def list_all_iff split: if_splits
      dest!: in_set_takeD set_takeWhileD)

lemma start_or_sep_group:
  assumes "start_or_sep sep body b r = Some (n, g)"
  shows "\<exists>r' n'. body r' = Some (n', g)"
  using assms
  by (auto simp: start_or_sep_def split: if_splits option.splits list.splits)

lemma m_embedded_rev_group:
  "m_embedded_rev b r = Some (n, g) \<Longrightarrow> list_all is_dO g \<and> g \<noteq> [] \<and> length g \<le> 2"
  unfolding m_embedded_rev_def
  using start_or_sep_group embedded_rev_body_group by blast

lemma re_search_from_match:
  "re_search_from m b s = Some (i, n, g) \<Longrightarrow> \<exists>b' r. m b' r = Some (n, g)"
proof (induction m b s arbitrary: i rule: re_search_from.induct)
  case (1 m at_start)
  then show ?case by (auto split: option.splits)
next
  case (2 m at_start c cs)
  then show ?case by (auto split: option.splits)
qed

lemma rev_digits_of_group:
  "list_all is_dO g \<and> g \<noteq> [] \<and> length g \<le> 2 \<Longrightarrow> rev_digits (take 2 (upper_O_to_0 g))"
  by (simp add: rev_digits_def upper_O_to_0_digits list_all_take)

lemma foldl_strip_embedded:
  assumes "list_all (\<lambda>g. list_all is_dO g \<and> g \<noteq> [] \<and> length g \<le> 2) groups"
      and "c = [] \<or> rev_digits c"
  shows "foldl strip_embedded c groups = [] \<or> rev_digits (foldl strip_embedded c groups)"
  using assms
proof (induction groups arbitrary: c)
  case Nil
  then show ?case by simp
next
  case (Cons g groups)
  have "rev_digits (strip_embedded c g)"
    using Cons.prems(1) rev_digits_of_group [of g] by (simp add: strip_embedded_def)
  then show ?case using Cons by simp
qed

lemma extract_rev_token: "is_rev_token (snd (fst (extract_rev trailing notes)))"
proof (cases "canon_rev_search (rstrip trailing)")
  case (Some a)
  obtain st g where a: "a = (st, g)" by (cases a)
  from canon_rev_search_group [of "rstrip trailing" st g] Some a
  have "list_all is_digit g" "g \<noteq> []" "length g \<le> 2" by auto
  then show ?thesis using Some a
    by (simp add: extract_rev_def Let_def is_rev_token_def)
next
  case None
  show ?thesis
  proof (cases "rev_any_infix_search (rstrip trailing)")
    case (Some a)
    obtain st g where a: "a = (st, g)" by (cases a)
    from rev_any_infix_search_group [of "rstrip trailing" st g] Some a
    have "rev_digits (take 2 (upper_O_to_0 g))" by (intro rev_digits_of_group) auto
    then show ?thesis using None Some a
      by (simp add: extract_rev_def Let_def is_rev_token_def rev_digits_def)
  next
    case n2: None
    obtain s2 groups where sg: "re_sub_groups m_embedded_rev [] True (rstrip trailing) = (s2, groups)"
      by (cases "re_sub_groups m_embedded_rev [] True (rstrip trailing)")
    have "list_all (\<lambda>g. list_all is_dO g \<and> g \<noteq> [] \<and> length g \<le> 2) groups"
      using re_sub_groups_all [of m_embedded_rev "\<lambda>g. list_all is_dO g \<and> g \<noteq> [] \<and> length g \<le> 2" "[]" True "rstrip trailing"]
        m_embedded_rev_group sg by auto
    then have "foldl strip_embedded [] groups = [] \<or> rev_digits (foldl strip_embedded [] groups)"
      by (rule foldl_strip_embedded) simp
    then show ?thesis using None n2 sg
      by (auto simp: extract_rev_def Let_def is_rev_token_def rev_digits_def is_digit_0 split: prod.splits)
  qed
qed

section \<open>Characters of a sanitized title\<close>

lemma re_sub_set_le: "set s \<subseteq> A \<Longrightarrow> set rep \<subseteq> A \<Longrightarrow> set (re_sub m rep s) \<subseteq> A"
  using re_sub_set [of m rep s] by blast

lemma take_set_le: "set s \<subseteq> A \<Longrightarrow> set (take n s) \<subseteq> A"
  using set_take_subset [of n s] by blast

lemma strip_spurious_extensions_set:
  "set (fst (strip_spurious_extensions t n)) \<subseteq> set t \<union> {CHR ''-''}"
proof -
  let ?A = "set t \<union> {CHR ''-''}"
  have 1: "set (re_sub m_ext_token [] t) \<subseteq> ?A"
    by (rule re_sub_set_le) auto
  have 2: "set (case x of Some ext \<Rightarrow> take (length (re_sub m_ext_token [] t) - length ext)
                                      (re_sub m_ext_token [] t)
                 | None \<Rightarrow> re_sub m_ext_token [] t) \<subseteq> ?A" for x :: "string option"
    using 1 by (cases x) (simp_all add: take_set_le del: Un_insert_right)
  show ?thesis
    unfolding strip_spurious_extensions_def Let_def fst_conv
    by (intro re_sub_set_le 2) auto
qed

lemma strip_spurious_extensions_alnum:
  "list_all is_alnum_dash (fst (strip_spurious_extensions (filter is_alnum_dash x) n))"
  using strip_spurious_extensions_set [of "filter is_alnum_dash x" n]
  by (auto simp: list_all_iff is_alnum_dash_def)

lemma sanitize_title_chars: "list_all is_alnum_dash (fst (sanitize_title raw notes))"
  by (simp add: sanitize_title_def Let_def case_prod_beta strip_spurious_extensions_alnum)

section \<open>Collapsing underscores in a joined name\<close>

lemma mu_start: "re_sub_groups m_multi_unders rep b s = re_sub_groups m_multi_unders rep b' s"
  by (cases s) (simp_all add: m_multi_unders_def)

lemma mu_free:
  "CHR ''_'' \<notin> set u \<Longrightarrow>
   fst (re_sub_groups m_multi_unders rep b (u @ s)) = u @ fst (re_sub_groups m_multi_unders rep False s)"
proof (induction u arbitrary: b)
  case Nil
  then show ?case using mu_start [of rep b s False] by simp
next
  case (Cons c u)
  from Cons.prems have "\<not> is_underscore c" by (auto simp: is_underscore_def)
  then have "m_multi_unders b (c # u @ s) = None"
    by (simp add: m_multi_unders_def)
  moreover from Cons.prems have "CHR ''_'' \<notin> set u" by simp
  ultimately show ?case using Cons.IH [of False] by (simp add: case_prod_beta)
qed

lemma mu_single:
  assumes "s \<noteq> []" "hd s \<noteq> CHR ''_''"
  shows "fst (re_sub_groups m_multi_unders rep b (CHR ''_'' # s)) =
         CHR ''_'' # fst (re_sub_groups m_multi_unders rep False s)"
proof -
  from assms obtain c cs where s: "s = c # cs" "c \<noteq> CHR ''_''" by (cases s) auto
  then have "m_multi_unders b (CHR ''_'' # s) = None"
    by (simp add: m_multi_unders_def is_underscore_def)
  then show ?thesis by (simp add: case_prod_beta)
qed

lemma mu_double:
  assumes "s \<noteq> []" "hd s \<noteq> CHR ''_''"
  shows "fst (re_sub_groups m_multi_unders rep b (CHR ''_'' # CHR ''_'' # s)) =
         rep @ fst (re_sub_groups m_multi_unders rep False s)"
proof -
  from assms obtain c cs where s: "s = c # cs" "c \<noteq> CHR ''_''" by (cases s) auto
  then have "m_multi_unders b (CHR ''_'' # CHR ''_'' # s) = Some (Suc 1, [])"
    by (simp add: m_multi_unders_def is_underscore_def)
  then show ?thesis by (simp add: case_prod_beta)
qed

lemma mu_nil: "fst (re_sub_groups m_multi_unders rep b []) = []"
  by simp

lemma tu_none:
  assumes "s \<noteq> []" "last s \<noteq> CHR ''_''" "last s \<noteq> CHR 0x0A"
  shows "m_trailing_unders b s = None"
proof -
  have d: "drop (length (takeWhile is_underscore s)) s = dropWhile is_underscore s"
    by (rule dropWhile_eq_drop [symmetric])
  have "\<not> at_dollar (dropWhile is_underscore s)"
  proof
    assume "at_dollar (dropWhile is_underscore s)"
    then consider "dropWhile is_underscore s = []" | "dropWhile is_underscore s = [CHR 0x0A]"
      by (auto simp: at_dollar_def)
    then show False
    proof cases
      case 1
      then have "\<forall>x\<in>set s. is_underscore x" by (simp only: dropWhile_eq_Nil_conv)
      moreover have "last s \<in> set s" using assms(1) by (rule last_in_set)
      ultimately have "is_underscore (last s)" by blast
      then show False using assms(2) by (simp add: is_underscore_def)
    next
      case 2
      have "takeWhile is_underscore s @ dropWhile is_underscore s = s"
        by (rule takeWhile_dropWhile_id)
      with 2 have "takeWhile is_underscore s @ [CHR 0x0A] = s" by simp
      then have "last s = CHR 0x0A" using last_snoc by metis
      then show False using assms(3) by simp
    qed
  qed
  then show ?thesis by (simp add: m_trailing_unders_def Let_def d)
qed

lemma tu_id:
  assumes "s \<noteq> []" "last s \<noteq> CHR ''_''" "last s \<noteq> CHR 0x0A"
  shows "fst (re_sub_groups m_trailing_unders rep b s) = s"
  using assms
proof (induction s arbitrary: b)
  case Nil
  then show ?case by simp
next
  case (Cons c cs)
  have n: "m_trailing_unders b (c # cs) = None" using Cons.prems by (intro tu_none) auto
  show ?case
  proof (cases "cs = []")
    case True
    then show ?thesis using n by simp
  next
    case False
    then have "fst (re_sub_groups m_trailing_unders rep False cs) = cs"
      using Cons.IH [of False] Cons.prems by simp
    then show ?thesis using n by (simp add: case_prod_beta)
  qed
qed

lemma hd_not_underscore: "u \<noteq> [] \<Longrightarrow> CHR ''_'' \<notin> set u \<Longrightarrow> hd u \<noteq> CHR ''_''"
  by (cases u) auto

lemma mu_seg:
  assumes "u \<noteq> []" "CHR ''_'' \<notin> set u"
  shows "fst (re_sub_groups m_multi_unders rep b (CHR ''_'' # u @ s)) =
         CHR ''_'' # u @ fst (re_sub_groups m_multi_unders rep False s)"
proof -
  have "fst (re_sub_groups m_multi_unders rep b (CHR ''_'' # (u @ s))) =
        CHR ''_'' # fst (re_sub_groups m_multi_unders rep False (u @ s))"
    using assms by (intro mu_single) (simp_all add: hd_not_underscore)
  then show ?thesis using mu_free [OF assms(2)] by simp
qed

lemma mu_seg2:
  assumes "u \<noteq> []" "CHR ''_'' \<notin> set u"
  shows "fst (re_sub_groups m_multi_unders rep b (CHR ''_'' # CHR ''_'' # u @ s)) =
         rep @ u @ fst (re_sub_groups m_multi_unders rep False s)"
proof -
  have "fst (re_sub_groups m_multi_unders rep b (CHR ''_'' # CHR ''_'' # (u @ s))) =
        rep @ fst (re_sub_groups m_multi_unders rep False (u @ s))"
    using assms by (intro mu_double) (simp_all add: hd_not_underscore)
  then show ?thesis using mu_free [OF assms(2)] by simp
qed

lemma mu_seg_end:
  assumes "u \<noteq> []" "CHR ''_'' \<notin> set u"
  shows "fst (re_sub_groups m_multi_unders rep b (CHR ''_'' # u)) = CHR ''_'' # u"
  using mu_seg [OF assms, of rep b "[]"] by simp

lemma mu_seg2_end:
  assumes "u \<noteq> []" "CHR ''_'' \<notin> set u"
  shows "fst (re_sub_groups m_multi_unders rep b (CHR ''_'' # CHR ''_'' # u)) = rep @ u"
  using mu_seg2 [OF assms, of rep b "[]"] by simp

lemma join_tokens_form:
  assumes p: "p \<noteq> []" "CHR ''_'' \<notin> set p"
      and d: "d \<noteq> []" "CHR ''_'' \<notin> set d"
      and t: "CHR ''_'' \<notin> set t"
      and r: "r \<noteq> []" "CHR ''_'' \<notin> set r" "last r \<noteq> CHR 0x0A"
      and i: "\<And>i. idc = Some i \<Longrightarrow> CHR ''_'' \<notin> set i"
  shows "join_tokens p idc d t r = canonical_stem p idc d t r"
proof -
  have lr: "last r \<noteq> CHR ''_''" using r by (metis last_in_set)
  have collapse: "re_sub m_multi_unders ''_'' (py_join ''_''
          ([p] @ (case idc of Some i \<Rightarrow> if i \<noteq> [] then [i] else [] | None \<Rightarrow> []) @ [d, t, r]))
        = canonical_stem p idc d t r"
  proof (cases "truthy idc")
    case True
    then obtain i where ii: "idc = Some i" "i \<noteq> []" by (auto simp: truthy_def split: option.splits)
    with i have iu: "CHR ''_'' \<notin> set i" by simp
    show ?thesis
    proof (cases "t = []")
      case True
      then show ?thesis using p d r ii iu
        by (simp add: re_sub_def canonical_stem_def id_segment_def mu_free mu_seg mu_seg2_end del: re_sub_groups.simps)
    next
      case False
      then show ?thesis using p d r ii iu t
        by (simp add: re_sub_def canonical_stem_def id_segment_def mu_free mu_seg mu_seg_end del: re_sub_groups.simps)
    qed
  next
    case False
    then have ii: "(case idc of Some i \<Rightarrow> if i \<noteq> [] then [i] else [] | None \<Rightarrow> []) = []"
      "id_segment idc = []"
      by (auto simp: truthy_def id_segment_def split: option.splits)
    show ?thesis
    proof (cases "t = []")
      case True
      then show ?thesis using p d r ii
        by (simp add: re_sub_def canonical_stem_def mu_free mu_seg mu_seg2_end del: re_sub_groups.simps)
    next
      case False
      then show ?thesis using p d r ii t
        by (simp add: re_sub_def canonical_stem_def mu_free mu_seg mu_seg_end del: re_sub_groups.simps)
    qed
  qed
  have ne: "canonical_stem p idc d t r \<noteq> []" using p by (simp add: canonical_stem_def)
  have la: "last (canonical_stem p idc d t r) = last r"
    using r by (simp add: canonical_stem_def)
  have "re_sub m_trailing_unders [] (canonical_stem p idc d t r) = canonical_stem p idc d t r"
    unfolding re_sub_def using ne la lr r(3) by (intro tu_id) simp_all
  then show ?thesis using collapse by (simp add: join_tokens_def Let_def)
qed

section \<open>The length budget and the fields of a name\<close>

lemma endswith_single: "endswith s [c] = (s \<noteq> [] \<and> last s = c)"
  by (cases s rule: rev_cases) (simp_all add: endswith_def)

lemma is_rev_token_props:
  assumes "is_rev_token r"
  shows "r \<noteq> []" "CHR ''_'' \<notin> set r" "is_digit (last r)" "length r \<le> 5" "4 \<le> length r"
proof -
  from assms obtain ds where r: "r = ''Rev'' @ ds" and ds: "ds \<noteq> []" "length ds \<le> 2" "list_all is_digit ds"
    unfolding is_rev_token_def Let_def by (metis append_take_drop_id)
  show "r \<noteq> []" using r by simp
  show "CHR ''_'' \<notin> set r" using r ds(3) by (auto simp: list_all_iff dest: digit_not_special(3))
  have "last r = last ds" using r ds(1) by simp
  moreover have "last ds \<in> set ds" using ds(1) by (rule last_in_set)
  ultimately show "is_digit (last r)" using ds(3) by (simp add: list_all_iff)
  show "length r \<le> 5" using r ds(2) by simp
  show "4 \<le> length r" using r ds(1) by (cases ds) simp_all
qed

lemma enforce_stem_limit_props:
  assumes "enforce_stem_limit p idc d t r n = (t', n')"
  shows "t' = take (length t') t"
    and "length p + 1 + length (id_segment idc) + length d + 1 + length t' + 1 + length r \<le> 64 \<or> t' = []"
    and "t' = t \<or> ''File name exceeds 64-character limit (title truncated).'' \<in> set n'"
proof -
  have sn: "show_nat 64 = ''64''" by (simp add: show_nat.simps digit_char_def)
  show "t' = take (length t') t"
    using assms
    by (auto simp: enforce_stem_limit_def Let_def MAX_CHARS_TOTAL_def split: if_splits)
  show "length p + 1 + length (id_segment idc) + length d + 1 + length t' + 1 + length r \<le> 64 \<or> t' = []"
    using assms
    by (auto simp: enforce_stem_limit_def Let_def MAX_CHARS_TOTAL_def id_segment_def
        split: if_splits option.splits)
  show "t' = t \<or> ''File name exceeds 64-character limit (title truncated).'' \<in> set n'"
    using assms
    by (auto simp: enforce_stem_limit_def Let_def MAX_CHARS_TOTAL_def sn split: if_splits)
qed

lemma finalize_fields_props:
  assumes "finalize_fields p idp d traw hr iss0 = ((idc, t, r), iss)" "hard_rev_ok hr"
  shows "is_rev_token r"
    and "list_all is_alnum_dash t"
    and "\<And>i. idc = Some i \<Longrightarrow> CHR ''_'' \<notin> set i"
    and "length p + 1 + length (id_segment idc) + length d + 1 + length t + 1 + length r \<le> 64 \<or> t = []"
proof -
  obtain tnr rn i1 where er: "extract_rev traw iss0 = ((tnr, rn), i1)"
    by (metis prod.exhaust)
  obtain ts i2 where st: "sanitize_title tnr i1 = (ts, i2)" by (metis prod.exhaust)
  define rs where "rs = (if truthy hr then (case hr of Some h \<Rightarrow> h | None \<Rightarrow> rn) else rn)"
  define ic where "ic = (case idp of Some i \<Rightarrow> if i \<noteq> [] then Some (filter (\<lambda>c. c \<noteq> CHR ''_'') i) else None
                      | None \<Rightarrow> None)"
  have ff: "enforce_stem_limit p ic d ts rs i2 = (t, iss)" "idc = ic" "r = rs"
    using assms(1) er st unfolding finalize_fields_def Let_def rs_def ic_def
    by (auto split: prod.splits)
  have "is_rev_token rn" using extract_rev_token [of traw iss0] er by simp
  then show "is_rev_token r" using assms(2) ff(3)
    by (auto simp: rs_def hard_rev_ok_def truthy_def split: option.splits)
  have "list_all is_alnum_dash ts" using sanitize_title_chars [of tnr i1] st by simp
  moreover have "t = take (length t) ts" using enforce_stem_limit_props(1) [OF ff(1)] .
  ultimately show "list_all is_alnum_dash t" using list_all_take by metis
  show "\<And>i. idc = Some i \<Longrightarrow> CHR ''_'' \<notin> set i"
    using ff(2) by (auto simp: ic_def split: option.splits if_splits)
  show "length p + 1 + length (id_segment idc) + length d + 1 + length t + 1 + length r \<le> 64 \<or> t = []"
    using enforce_stem_limit_props(2) [OF ff(1)] ff(2,3) by simp
qed

lemma enforce_stem_limit_exact:
  assumes "enforce_stem_limit p idc d t0 r ns = (t, ns')"
  shows "t = take (length t0 - (full_length p idc d t0 r - 64)) t0"
    and "ns' = (if 64 < full_length p idc d t0 r then ns @ [truncation_note] else ns)"
proof -
  have sn: "show_nat 64 = ''64''" by (simp add: show_nat.simps digit_char_def)
  have b: "length (case idc of None \<Rightarrow> p @ ''_'' | Some i \<Rightarrow> if i \<noteq> [] then (p @ ''_'') @ i @ ''_'' else p @ ''_'')
             = length p + 1 + length (id_segment idc)"
    by (simp add: id_segment_def split: option.splits)
  show "t = take (length t0 - (full_length p idc d t0 r - 64)) t0"
    using assms b
    by (auto simp: enforce_stem_limit_def Let_def MAX_CHARS_TOTAL_def full_length_def
        split: if_splits)
  show "ns' = (if 64 < full_length p idc d t0 r then ns @ [truncation_note] else ns)"
    using assms b
    by (auto simp: enforce_stem_limit_def Let_def MAX_CHARS_TOTAL_def full_length_def sn
        truncation_note_def split: if_splits)
qed

lemma finalize_fields_exact:
  assumes ff: "finalize_fields p idp d traw hr iss0 = ((idc, t, r), iss)"
      and er: "extract_rev traw iss0 = ((tnr, rn), iss1)"
      and st: "sanitize_title tnr iss1 = (t0, iss2)"
  shows "idc = clean_id idp"
    and "r = (case hr of Some h \<Rightarrow> if h \<noteq> [] then h else rn | None \<Rightarrow> rn)"
    and "t = take (length t0 - (full_length p idc d t0 r - 64)) t0"
    and "iss = (if 64 < full_length p idc d t0 r then iss2 @ [truncation_note] else iss2)"
proof -
  define rs where "rs = (if truthy hr then (case hr of Some h \<Rightarrow> h | None \<Rightarrow> rn) else rn)"
  have e: "enforce_stem_limit p (clean_id idp) d t0 rs iss2 = (t, iss)"
    and i: "idc = clean_id idp" and r: "r = rs"
    using ff er st unfolding finalize_fields_def Let_def rs_def clean_id_def
    by (auto split: prod.splits)
  show "idc = clean_id idp" by (rule i)
  show r': "r = (case hr of Some h \<Rightarrow> if h \<noteq> [] then h else rn | None \<Rightarrow> rn)"
    using r by (auto simp: rs_def truthy_def split: option.splits)
  show "t = take (length t0 - (full_length p idc d t0 r - 64)) t0"
    using enforce_stem_limit_exact(1) [OF e] i r by simp
  show "iss = (if 64 < full_length p idc d t0 r then iss2 @ [truncation_note] else iss2)"
    using enforce_stem_limit_exact(2) [OF e] i r by simp
qed

section \<open>The assembled stem\<close>

lemma alnum_dash_not_underscore: "list_all is_alnum_dash t \<Longrightarrow> CHR ''_'' \<notin> set t"
proof -
  have "\<not> is_alnum_dash (CHR ''_'')"
    by (simp add: is_alnum_dash_def is_alnum_def is_upper_AZ_def is_lower_az_def is_digit_def)
  then show "list_all is_alnum_dash t \<Longrightarrow> CHR ''_'' \<notin> set t"
    by (auto simp: list_all_iff)
qed

lemma digits_not_underscore: "list_all is_digit d \<Longrightarrow> CHR ''_'' \<notin> set d"
  by (auto simp: list_all_iff dest: digit_not_special(3))

lemma canonical_stem_count:
  assumes "CHR ''_'' \<notin> set p" "CHR ''_'' \<notin> set d" "CHR ''_'' \<notin> set t" "CHR ''_'' \<notin> set r"
      and "\<And>i. idc = Some i \<Longrightarrow> CHR ''_'' \<notin> set i"
  shows "count_list (canonical_stem p idc d t r) (CHR ''_'') =
           (if truthy idc then 4 else 3) - (if t = [] then 1 else 0)"
  using assms
  by (auto simp: canonical_stem_def id_segment_def truthy_def split: option.splits)

lemma canonical_stem_last:
  "r \<noteq> [] \<Longrightarrow> last (canonical_stem p idc d t r) = last r"
  by (simp add: canonical_stem_def)

lemma canonical_stem_length:
  "length (canonical_stem p idc d t r) =
     length p + 1 + length (id_segment idc) + length d + 1 + (if t = [] then 0 else length t + 1) + length r"
  by (simp add: canonical_stem_def)

lemma finalize_stem_form:
  assumes p: "p \<noteq> []" "CHR ''_'' \<notin> set p"
      and d: "digits_n 8 d"
      and hr: "hard_rev_ok hr"
      and ff: "finalize_fields p idp d traw hr iss0 = ((idc, t, r), iss)"
  shows "finalize_stem p idp d traw hr iss0 =
           (canonical_stem p idc d t r, if t = [] then iss @ [underscore_note] else iss)"
proof -
  note fp = finalize_fields_props [OF ff hr]
  note rp = is_rev_token_props [OF fp(1)]
  have du: "d \<noteq> []" "CHR ''_'' \<notin> set d"
    using d by (auto simp: digits_n_def dest: digits_not_underscore)
  have tu: "CHR ''_'' \<notin> set t" using fp(2) by (rule alnum_dash_not_underscore)
  have ln: "last r \<noteq> CHR 0x0A" "last r \<noteq> CHR ''_''" "last r \<noteq> CHR ''.''"
    using digit_not_special [OF rp(3)] by simp_all
  have j: "join_tokens p idc d t r = canonical_stem p idc d t r"
    using p du tu rp(1,2) ln(1) fp(3) by (intro join_tokens_form) auto
  have c: "underscores_ok (canonical_stem p idc d t r) (truthy idc) = (t \<noteq> [])"
    using canonical_stem_count [OF p(2) du(2) tu rp(2) fp(3)]
    by (auto simp: underscores_ok_def)
  have e: "\<not> endswith (canonical_stem p idc d t r) ''_''" "\<not> endswith (canonical_stem p idc d t r) ''.''"
    using canonical_stem_last [OF rp(1), of p idc d t] ln by (simp_all add: endswith_single)
  have pp: "postprocess_before_ext (canonical_stem p idc d t r) n = (canonical_stem p idc d t r, n)" for n
    using e by (simp add: postprocess_before_ext_def)
  show ?thesis
    by (simp add: finalize_stem_def ff Let_def j c underscore_note_def pp)
qed

section \<open>What the families accept\<close>

lemma scan_for_date_Some:
  "scan_for_date rest i iss = (Some (k, d), iss') \<Longrightarrow> digits_n 8 d"
proof (induction rest arbitrary: i iss)
  case Nil
  then show ?case by simp
next
  case (Cons tok toks)
  then show ?case
    by (auto split: prod.splits option.splits dest: need_date_Some)
qed

lemma hard_rev_ok_None [simp]: "hard_rev_ok None"
  by (simp add: hard_rev_ok_def)

lemma family_COR_accept:
  "family_COR rest iss = Inr (Accept p idp d traw hr iss') \<Longrightarrow>
   p = ''COR'' \<and> digits_n 8 d \<and> hard_rev_ok hr"
  by (auto simp: family_COR_def Let_def split: prod.splits option.splits dest: scan_for_date_Some)

lemma family_QA_accept:
  "family_QA rest iss = Inr (Accept p idp d traw hr iss') \<Longrightarrow>
   p = ''QA'' \<and> digits_n 8 d \<and> hard_rev_ok hr"
  by (auto simp: family_QA_def bindE_def py_index_def Let_def
      split: if_splits prod.splits option.splits dest: need_date_Some)

lemma family_AU_accept:
  "family_AU rest iss = Inr (Accept p idp d traw hr iss') \<Longrightarrow>
   p = ''AU'' \<and> digits_n 8 d \<and> hard_rev_ok hr"
  by (auto simp: family_AU_def bindE_def py_index_def Let_def
      split: if_splits prod.splits option.splits dest: need_date_Some)

lemma family_FDM_accept:
  "family_FDM rest iss = Inr (Accept p idp d traw hr iss') \<Longrightarrow>
   p = ''FDM'' \<and> digits_n 8 d \<and> hard_rev_ok hr"
  by (auto simp: family_FDM_def Let_def
      split: if_splits prod.splits option.splits dest: scan_for_date_Some)

lemma tf_match_group:
  assumes "(case rev_any_infix_search tr of
              Some (start, g) \<Rightarrow> Some g
            | None \<Rightarrow> (case re_search m_embedded_rev tr of
                         Some (start, n, g) \<Rightarrow> Some g | None \<Rightarrow> None)) = Some g"
  shows "list_all is_dO g \<and> g \<noteq> [] \<and> length g \<le> 2"
proof (cases "rev_any_infix_search tr")
  case (Some a)
  then show ?thesis using assms rev_any_infix_search_group [of tr "fst a" g]
    by (cases a) auto
next
  case None
  with assms obtain st n where "re_search_from m_embedded_rev True tr = Some (st, n, g)"
    by (auto simp: re_search_def split: option.splits)
  then obtain b r where "m_embedded_rev b r = Some (n, g)"
    using re_search_from_match by blast
  then show ?thesis by (rule m_embedded_rev_group)
qed

lemma tf_trailing_digits_token: "is_rev_token (''Rev'' @ tf_trailing_digits tr)"
proof -
  define m where "m = (case rev_any_infix_search tr of
              Some (start, g) \<Rightarrow> Some g
            | None \<Rightarrow> (case re_search m_embedded_rev tr of
                         Some (start, n, g) \<Rightarrow> Some g | None \<Rightarrow> None))"
  have e: "tf_trailing_digits tr =
      (if (case m of Some g \<Rightarrow> g | None \<Rightarrow> ''0'') \<noteq> []
       then take 2 (upper_O_to_0 (case m of Some g \<Rightarrow> g | None \<Rightarrow> ''0'')) else ''0'')"
    by (simp add: tf_trailing_digits_def Let_def m_def)
  show ?thesis
  proof (cases m)
    case None
    then show ?thesis unfolding e by (simp add: is_rev_token_def upper_O_to_0_def is_digit_0)
  next
    case (Some g)
    then have g: "list_all is_dO g \<and> g \<noteq> [] \<and> length g \<le> 2"
      using tf_match_group [of tr g] by (simp add: m_def)
    then have "rev_digits (take 2 (upper_O_to_0 g))" by (rule rev_digits_of_group)
    then show ?thesis unfolding e using Some g by (auto simp: is_rev_token_def rev_digits_def)
  qed
qed

lemma hard_rev_ok_tf [simp]: "hard_rev_ok (Some (''Rev'' @ tf_trailing_digits tr))"
  by (simp add: hard_rev_ok_def tf_trailing_digits_token del: append.simps)

lemma family_TF_accept:
  assumes "family_TF rest iss = Inr (Return (Accept p idp d traw hr iss'))"
  shows "p = ''TF'' \<and> digits_n 8 d \<and> hard_rev_ok hr"
  using assms
  by (auto simp: family_TF_def bindE_def py_index_def index_or_None_def Let_def
      simp del: append.simps
      split: if_splits prod.splits option.splits dest: need_date_Some)

lemma family_ID_ANY_accept:
  "family_ID_ANY prefix rest iss = Inr (Accept p idp d traw hr iss') \<Longrightarrow>
   p = prefix \<and> digits_n 8 d \<and> hard_rev_ok hr"
  by (auto simp: family_ID_ANY_def bindE_def py_index_def Let_def
      split: if_splits prod.splits option.splits dest: need_date_Some)

lemma family_CSI_accept:
  "family_CSI prefix rest iss = Inr (Accept p idp d traw hr iss') \<Longrightarrow>
   p = prefix \<and> digits_n 8 d \<and> hard_rev_ok hr"
  by (auto simp: family_CSI_def bindE_def py_index_def Let_def
      split: if_splits prod.splits option.splits dest: need_date_Some)

lemma family_optional_CSI_accept:
  "family_optional_CSI prefix om rest iss = Inr (Accept p idp d traw hr iss') \<Longrightarrow>
   p = prefix \<and> digits_n 8 d \<and> hard_rev_ok hr"
  by (auto simp: family_optional_CSI_def bindE_def py_index_def index_or_None_def Let_def
      split: if_splits prod.splits option.splits dest: need_date_Some)

lemma family_RE_accept:
  "family_RE rest iss = Inr (Accept p idp d traw hr iss') \<Longrightarrow>
   p = ''RE'' \<and> digits_n 8 d \<and> hard_rev_ok hr"
  by (auto simp: family_RE_def bindE_def py_index_def Let_def
      split: if_splits prod.splits option.splits dest: need_date_Some)

lemma family_STANDARD_accept:
  "family_STANDARD prefix rest iss = Inr (Accept p idp d traw hr iss') \<Longrightarrow>
   p = prefix \<and> digits_n 8 d \<and> hard_rev_ok hr"
  by (auto simp: family_STANDARD_def bindE_def py_index_def Let_def
      split: if_splits prod.splits option.splits dest: need_date_Some)

lemma family_prefix_length: "family_prefix p \<Longrightarrow> length p \<le> 4"
  unfolding family_prefix_def REQUIRES_ID_ANY_def REQUIRES_CSI_def STANDARD_PREFIXES_def
  by (elim disjE) auto

lemma dispatch_accept:
  assumes "dispatch prefix rest iss = Inr (Accept p idp d traw hr iss')"
  shows "p = prefix \<and> digits_n 8 d \<and> hard_rev_ok hr \<and> family_prefix prefix"
proof -
  consider (cor) "prefix = ''COR''" | (qa) "prefix = ''QA''" | (au) "prefix = ''AU''"
    | (fdm) "prefix = ''FDM''"
    | (other) "prefix \<noteq> ''COR''" "prefix \<noteq> ''QA''" "prefix \<noteq> ''AU''" "prefix \<noteq> ''FDM''"
    by blast
  then show ?thesis
  proof cases
    case cor
    then show ?thesis using assms family_COR_accept [of rest iss p idp d traw hr iss']
      by (simp add: dispatch_def family_prefix_def)
  next
    case qa
    then show ?thesis using assms family_QA_accept [of rest iss p idp d traw hr iss']
      by (simp add: dispatch_def family_prefix_def)
  next
    case au
    then show ?thesis using assms family_AU_accept [of rest iss p idp d traw hr iss']
      by (simp add: dispatch_def family_prefix_def)
  next
    case fdm
    then show ?thesis using assms family_FDM_accept [of rest iss p idp d traw hr iss']
      by (simp add: dispatch_def family_prefix_def)
  next
    case other
    define step where "step = (if prefix = ''TF'' then family_TF rest iss else Inr (Fall_through iss))"
    define cont where "cont = (\<lambda>issues.
             if prefix \<in> set REQUIRES_ID_ANY then family_ID_ANY prefix rest issues
             else if prefix \<in> set REQUIRES_CSI then family_CSI prefix rest issues
             else if prefix = ''PN'' then family_optional_CSI ''PN'' [] rest issues
             else if prefix = ''SP'' then family_optional_CSI ''SP'' [] rest issues
             else if prefix = ''WR'' then
               family_optional_CSI ''WR''
                 [''No CSI provided '' @ em_dash @ '' allowed for overall warranty.''] rest issues
             else if prefix = ''RE'' then family_RE rest issues
             else if prefix \<in> set STANDARD_PREFIXES then family_STANDARD prefix rest issues
             else Inr (Reject (issues @ [terminal_note])))"
    have d: "dispatch prefix rest iss =
        bindE step (\<lambda>s. case s of Return out \<Rightarrow> Inr out | Fall_through issues \<Rightarrow> cont issues)"
      unfolding dispatch_def step_def cont_def using other by (simp only: if_False)
    have c: "p = prefix \<and> digits_n 8 d \<and> hard_rev_ok hr \<and> family_prefix prefix"
      if "cont issues = Inr (Accept p idp d traw hr iss')" for issues
      using that family_ID_ANY_accept [of prefix rest issues p idp d traw hr iss']
        family_CSI_accept [of prefix rest issues p idp d traw hr iss']
        family_optional_CSI_accept [of prefix _ rest issues p idp d traw hr iss']
        family_RE_accept [of rest issues p idp d traw hr iss']
        family_STANDARD_accept [of prefix rest issues p idp d traw hr iss']
      unfolding cont_def family_prefix_def
      by (simp split: if_splits)
    show ?thesis
    proof (cases step)
      case (Inl e)
      then show ?thesis using assms d by (simp add: bindE_def)
    next
      case (Inr s)
      show ?thesis
      proof (cases s)
        case (Return out)
        then have "step = Inr (Return (Accept p idp d traw hr iss'))"
          using assms d Inr by (simp add: bindE_def)
        then have "prefix = ''TF''" "family_TF rest iss = Inr (Return (Accept p idp d traw hr iss'))"
          by (auto simp: step_def split: if_splits)
        then show ?thesis using family_TF_accept [of rest iss p idp d traw hr iss']
          by (simp add: family_prefix_def)
      next
        case (Fall_through issues)
        then have "cont issues = Inr (Accept p idp d traw hr iss')"
          using assms d Inr by (simp add: bindE_def)
        then show ?thesis by (rule c)
      qed
    qed
  qed
qed

lemma re_prefix_props:
  assumes "re_prefix p"
  shows "p \<noteq> []" "CHR ''_'' \<notin> set p"
proof -
  let ?t = "drop_final_newline p"
  from assms have t: "2 \<le> length ?t" "list_all is_upper_AZ ?t"
    by (simp_all add: re_prefix_def Let_def)
  have nu: "\<not> is_upper_AZ (CHR ''_'')" by (simp add: is_upper_AZ_def)
  from t(1) show "p \<noteq> []" by (auto simp: drop_final_newline_def)
  have "set p \<subseteq> set ?t \<union> {CHR 0x0A}"
  proof (cases "p \<noteq> [] \<and> last p = CHR 0x0A")
    case True
    then have "butlast p @ [CHR 0x0A] = p" using append_butlast_last_id by metis
    then have "set p = set (butlast p) \<union> {CHR 0x0A}" by (metis set_append list.set(1,2) Un_insert_right sup_bot.right_neutral)
    then show ?thesis using True by (simp add: drop_final_newline_def)
  next
    case False
    then show ?thesis by (auto simp: drop_final_newline_def)
  qed
  then show "CHR ''_'' \<notin> set p" using t(2) nu by (auto simp: list_all_iff)
qed

lemma audit_outcome_accept:
  assumes "audit_outcome n = Inr (Accept p idp d traw hr iss)"
  shows "p \<noteq> []" "CHR ''_'' \<notin> set p" "length p \<le> 4" "digits_n 8 d" "hard_rev_ok hr"
proof -
  obtain issues tokens where at: "audit_tokens n (strip n) = (issues, tokens)"
    by (metis prod.exhaust)
  from assms at have l: "\<not> length tokens < 2"
    and rp: "re_prefix (tokens ! 0)"
    and dp: "dispatch (tokens ! 0) (drop 1 tokens) issues = Inr (Accept p idp d traw hr iss)"
    by (auto simp: audit_outcome_def Let_def bindE_def py_index_def split: if_splits)
  from dispatch_accept [OF dp] have a: "p = tokens ! 0" "digits_n 8 d" "hard_rev_ok hr" "family_prefix p"
    by simp_all
  show "p \<noteq> []" "CHR ''_'' \<notin> set p" using re_prefix_props [OF rp] a(1) by simp_all
  show "length p \<le> 4" using a(4) by (rule family_prefix_length)
  show "digits_n 8 d" "hard_rev_ok hr" using a by simp_all
qed

lemma audit_outcome_prefix:
  assumes "audit_outcome n = Inr (Accept p idp d traw hr iss)"
  shows "p = hd (snd (audit_tokens n (strip n)))"
proof -
  obtain issues tokens where at: "audit_tokens n (strip n) = (issues, tokens)"
    by (metis prod.exhaust)
  from assms at have l: "\<not> length tokens < 2"
    and dp: "dispatch (tokens ! 0) (drop 1 tokens) issues = Inr (Accept p idp d traw hr iss)"
    by (auto simp: audit_outcome_def Let_def bindE_def py_index_def split: if_splits)
  from dispatch_accept [OF dp] have "p = tokens ! 0" by simp
  moreover have "tokens ! 0 = hd tokens" using l by (cases tokens) auto
  ultimately show ?thesis using at by simp
qed

section \<open>Totality\<close>

lemma family_COR_total: "\<exists>out. family_COR rest iss = Inr out"
  by (auto simp: family_COR_def Let_def split: prod.splits option.splits)

lemma family_QA_total: "\<exists>out. family_QA rest iss = Inr out"
  by (auto simp: family_QA_def bindE_def py_index_def Let_def
      split: if_splits prod.splits option.splits)

lemma family_AU_total: "\<exists>out. family_AU rest iss = Inr out"
  by (auto simp: family_AU_def bindE_def py_index_def Let_def
      split: if_splits prod.splits option.splits)

lemma family_FDM_total: "\<exists>out. family_FDM rest iss = Inr out"
  by (auto simp: family_FDM_def Let_def split: if_splits prod.splits option.splits)

lemma family_TF_total: "\<exists>step. family_TF rest iss = Inr step"
  by (auto simp: family_TF_def bindE_def py_index_def index_or_None_def Let_def
      simp del: append.simps split: if_splits prod.splits option.splits)

lemma family_ID_ANY_total: "\<exists>out. family_ID_ANY prefix rest iss = Inr out"
  by (auto simp: family_ID_ANY_def bindE_def py_index_def Let_def
      simp del: append.simps split: if_splits prod.splits option.splits)

lemma family_CSI_total: "\<exists>out. family_CSI prefix rest iss = Inr out"
  by (auto simp: family_CSI_def bindE_def py_index_def Let_def
      split: if_splits prod.splits option.splits)

lemma family_optional_CSI_total: "\<exists>out. family_optional_CSI prefix om rest iss = Inr out"
  by (auto simp: family_optional_CSI_def bindE_def py_index_def index_or_None_def Let_def
      split: if_splits prod.splits option.splits)

lemma family_RE_total: "\<exists>out. family_RE rest iss = Inr out"
  by (auto simp: family_RE_def bindE_def py_index_def Let_def
      split: if_splits prod.splits option.splits)

lemma family_STANDARD_total: "\<exists>out. family_STANDARD prefix rest iss = Inr out"
  by (auto simp: family_STANDARD_def bindE_def py_index_def Let_def
      split: if_splits prod.splits option.splits)

lemma if_total:
  "\<exists>out. a = Inr out \<Longrightarrow> \<exists>out. b = Inr out \<Longrightarrow> \<exists>out. (if c then a else b) = Inr out"
  by simp

lemma dispatch_total: "\<exists>out. dispatch prefix rest iss = Inr out"
proof -
  consider (cor) "prefix = ''COR''" | (qa) "prefix = ''QA''" | (au) "prefix = ''AU''"
    | (fdm) "prefix = ''FDM''"
    | (other) "prefix \<noteq> ''COR''" "prefix \<noteq> ''QA''" "prefix \<noteq> ''AU''" "prefix \<noteq> ''FDM''"
    by blast
  then show ?thesis
  proof cases
    case cor
    then show ?thesis using family_COR_total [of rest iss] by (simp add: dispatch_def)
  next
    case qa
    then show ?thesis using family_QA_total [of rest iss] by (simp add: dispatch_def)
  next
    case au
    then show ?thesis using family_AU_total [of rest iss] by (simp add: dispatch_def)
  next
    case fdm
    then show ?thesis using family_FDM_total [of rest iss] by (simp add: dispatch_def)
  next
    case other
    define step where "step = (if prefix = ''TF'' then family_TF rest iss else Inr (Fall_through iss))"
    define cont where "cont = (\<lambda>issues.
             if prefix \<in> set REQUIRES_ID_ANY then family_ID_ANY prefix rest issues
             else if prefix \<in> set REQUIRES_CSI then family_CSI prefix rest issues
             else if prefix = ''PN'' then family_optional_CSI ''PN'' [] rest issues
             else if prefix = ''SP'' then family_optional_CSI ''SP'' [] rest issues
             else if prefix = ''WR'' then
               family_optional_CSI ''WR''
                 [''No CSI provided '' @ em_dash @ '' allowed for overall warranty.''] rest issues
             else if prefix = ''RE'' then family_RE rest issues
             else if prefix \<in> set STANDARD_PREFIXES then family_STANDARD prefix rest issues
             else Inr (Reject (issues @ [terminal_note])))"
    have d: "dispatch prefix rest iss =
        bindE step (\<lambda>s. case s of Return out \<Rightarrow> Inr out | Fall_through issues \<Rightarrow> cont issues)"
      unfolding dispatch_def step_def cont_def using other by (simp only: if_False)
    have c: "\<exists>out. cont issues = Inr out" for issues
      unfolding cont_def
      by (intro if_total family_ID_ANY_total family_CSI_total family_optional_CSI_total
            family_RE_total family_STANDARD_total) simp
    have "\<exists>st. step = Inr st"
      unfolding step_def by (intro if_total family_TF_total) simp
    then obtain st where st: "step = Inr st" by blast
    show ?thesis
    proof (cases st)
      case (Return out)
      then show ?thesis using d st by (simp add: bindE_def)
    next
      case (Fall_through issues)
      then show ?thesis using d st c [of issues] by (simp add: bindE_def)
    qed
  qed
qed

lemma audit_outcome_total: "\<exists>out. audit_outcome n = Inr out"
proof -
  obtain issues tokens where at: "audit_tokens n (strip n) = (issues, tokens)"
    by (metis prod.exhaust)
  show ?thesis
    using dispatch_total [of "tokens ! 0" "drop 1 tokens" issues] at
    by (auto simp: audit_outcome_def Let_def bindE_def py_index_def)
qed

section \<open>Exempt names\<close>

lemma audit_exempt:
  assumes "list_ex (startswith (strip n)) IGNORE_PREFIXES"
  shows "audit_filename n = Inr (None, [], False)"
proof -
  have "strip n \<noteq> []" using assms by (auto simp: IGNORE_PREFIXES_def startswith_def)
  then have "audit_outcome n = Inr Skip" using assms by (simp add: audit_outcome_def)
  then show ?thesis by (simp add: audit_filename_def bindE_def)
qed

section \<open>What the families reject\<close>

lemma assemble_decision_None: "assemble_decision None issues = (Some [], issues, True)"
  by (simp add: assemble_decision_def)

lemma family_COR_reject:
  "family_COR rest iss = Inr (Reject iss') \<Longrightarrow> iss' \<noteq> [] \<and> last iss' = terminal_note"
  by (auto simp: family_COR_def Let_def split: prod.splits option.splits)

lemma family_QA_reject:
  "family_QA rest iss = Inr (Reject iss') \<Longrightarrow> iss' \<noteq> [] \<and> last iss' = terminal_note"
  by (auto simp: family_QA_def bindE_def py_index_def Let_def
      split: if_splits prod.splits option.splits)

lemma family_AU_reject:
  "family_AU rest iss = Inr (Reject iss') \<Longrightarrow> iss' \<noteq> [] \<and> last iss' = terminal_note"
  by (auto simp: family_AU_def bindE_def py_index_def Let_def
      split: if_splits prod.splits option.splits)

lemma family_FDM_reject:
  "family_FDM rest iss = Inr (Reject iss') \<Longrightarrow> iss' \<noteq> [] \<and> last iss' = terminal_note"
  by (auto simp: family_FDM_def Let_def split: if_splits prod.splits option.splits)

lemma family_TF_reject:
  "family_TF rest iss = Inr (Return (Reject iss')) \<Longrightarrow> iss' \<noteq> [] \<and> last iss' = terminal_note"
  by (auto simp: family_TF_def bindE_def py_index_def index_or_None_def Let_def
      simp del: append.simps split: if_splits prod.splits option.splits)

lemma family_ID_ANY_reject:
  "family_ID_ANY prefix rest iss = Inr (Reject iss') \<Longrightarrow> iss' \<noteq> [] \<and> last iss' = terminal_note"
  by (auto simp: family_ID_ANY_def bindE_def py_index_def Let_def
      simp del: append.simps split: if_splits prod.splits option.splits)

lemma family_CSI_reject:
  "family_CSI prefix rest iss = Inr (Reject iss') \<Longrightarrow>
   iss' \<noteq> [] \<and> last iss' \<in> set csi_failure_notes"
  by (auto simp: family_CSI_def bindE_def py_index_def Let_def csi_failure_notes_def
      split: if_splits prod.splits option.splits)

lemma family_optional_CSI_reject:
  "family_optional_CSI prefix om rest iss = Inr (Reject iss') \<Longrightarrow>
   iss' \<noteq> [] \<and> last iss' = terminal_note"
  by (auto simp: family_optional_CSI_def bindE_def py_index_def index_or_None_def Let_def
      split: if_splits prod.splits option.splits)

lemma family_RE_reject:
  "family_RE rest iss = Inr (Reject iss') \<Longrightarrow> iss' \<noteq> [] \<and> last iss' = terminal_note"
  by (auto simp: family_RE_def bindE_def py_index_def Let_def
      split: if_splits prod.splits option.splits)

lemma family_STANDARD_reject:
  "family_STANDARD prefix rest iss = Inr (Reject iss') \<Longrightarrow> iss' \<noteq> [] \<and> last iss' = terminal_note"
  by (auto simp: family_STANDARD_def bindE_def py_index_def Let_def
      split: if_splits prod.splits option.splits)

lemma dispatch_reject:
  assumes "dispatch prefix rest iss = Inr (Reject iss')"
  shows "iss' \<noteq> [] \<and> (last iss' = terminal_note \<or>
           (prefix \<in> set REQUIRES_CSI \<and> last iss' \<in> set csi_failure_notes))"
proof -
  consider (cor) "prefix = ''COR''" | (qa) "prefix = ''QA''" | (au) "prefix = ''AU''"
    | (fdm) "prefix = ''FDM''"
    | (other) "prefix \<noteq> ''COR''" "prefix \<noteq> ''QA''" "prefix \<noteq> ''AU''" "prefix \<noteq> ''FDM''"
    by blast
  then show ?thesis
  proof cases
    case cor
    then show ?thesis using assms family_COR_reject [of rest iss iss'] by (simp add: dispatch_def)
  next
    case qa
    then show ?thesis using assms family_QA_reject [of rest iss iss'] by (simp add: dispatch_def)
  next
    case au
    then show ?thesis using assms family_AU_reject [of rest iss iss'] by (simp add: dispatch_def)
  next
    case fdm
    then show ?thesis using assms family_FDM_reject [of rest iss iss'] by (simp add: dispatch_def)
  next
    case other
    define step where "step = (if prefix = ''TF'' then family_TF rest iss else Inr (Fall_through iss))"
    define cont where "cont = (\<lambda>issues.
             if prefix \<in> set REQUIRES_ID_ANY then family_ID_ANY prefix rest issues
             else if prefix \<in> set REQUIRES_CSI then family_CSI prefix rest issues
             else if prefix = ''PN'' then family_optional_CSI ''PN'' [] rest issues
             else if prefix = ''SP'' then family_optional_CSI ''SP'' [] rest issues
             else if prefix = ''WR'' then
               family_optional_CSI ''WR''
                 [''No CSI provided '' @ em_dash @ '' allowed for overall warranty.''] rest issues
             else if prefix = ''RE'' then family_RE rest issues
             else if prefix \<in> set STANDARD_PREFIXES then family_STANDARD prefix rest issues
             else Inr (Reject (issues @ [terminal_note])))"
    have d: "dispatch prefix rest iss =
        bindE step (\<lambda>s. case s of Return out \<Rightarrow> Inr out | Fall_through issues \<Rightarrow> cont issues)"
      unfolding dispatch_def step_def cont_def using other by (simp only: if_False)
    have c: "iss' \<noteq> [] \<and> (last iss' = terminal_note \<or>
           (prefix \<in> set REQUIRES_CSI \<and> last iss' \<in> set csi_failure_notes))"
      if "cont issues = Inr (Reject iss')" for issues
      using that family_ID_ANY_reject [of prefix rest issues iss']
        family_CSI_reject [of prefix rest issues iss']
        family_optional_CSI_reject [of _ _ rest issues iss']
        family_RE_reject [of rest issues iss']
        family_STANDARD_reject [of prefix rest issues iss']
      unfolding cont_def
      by (auto split: if_splits)
    show ?thesis
    proof (cases step)
      case (Inl e)
      then show ?thesis using assms d by (simp add: bindE_def)
    next
      case (Inr s)
      show ?thesis
      proof (cases s)
        case (Return out)
        then have "step = Inr (Return (Reject iss'))"
          using assms d Inr by (simp add: bindE_def)
        then have "family_TF rest iss = Inr (Return (Reject iss'))"
          by (auto simp: step_def split: if_splits)
        then show ?thesis using family_TF_reject [of rest iss iss'] by simp
      next
        case (Fall_through issues)
        then have "cont issues = Inr (Reject iss')"
          using assms d Inr by (simp add: bindE_def)
        then show ?thesis by (rule c)
      qed
    qed
  qed
qed

lemma audit_outcome_reject:
  assumes "audit_outcome n = Inr (Reject iss)"
  shows "iss \<noteq> [] \<and> (last iss = terminal_note \<or>
           (hd (snd (audit_tokens n (strip n))) \<in> set REQUIRES_CSI \<and>
            last iss \<in> set csi_failure_notes))"
proof -
  obtain issues tokens where at: "audit_tokens n (strip n) = (issues, tokens)"
    by (metis prod.exhaust)
  show ?thesis
  proof (cases "length tokens < 2 \<or> \<not> re_prefix (tokens ! 0)")
    case True
    then have "iss = issues @ [terminal_note]"
      using assms at by (auto simp: audit_outcome_def Let_def bindE_def py_index_def split: if_splits)
    then show ?thesis by simp
  next
    case False
    then have "dispatch (tokens ! 0) (drop 1 tokens) issues = Inr (Reject iss)"
      using assms at by (auto simp: audit_outcome_def Let_def bindE_def py_index_def split: if_splits)
    moreover have "hd tokens = tokens ! 0" using False by (cases tokens) auto
    ultimately show ?thesis using dispatch_reject at by auto
  qed
qed

lemma date_note_not_terminal: "snd (try_normalize_date tok) \<noteq> Some terminal_note"
  by (simp add: try_normalize_date_def Let_def terminal_note_def
      split: option.splits prod.splits)

lemma need_date_no_terminal:
  assumes "need_date tok iss = (d, iss')" "terminal_note \<notin> set iss"
  shows "terminal_note \<notin> set iss'"
proof -
  obtain dd nt where t: "try_normalize_date (case tok of Some t \<Rightarrow> t | None \<Rightarrow> []) = (dd, nt)"
    by (metis prod.exhaust)
  then have "nt \<noteq> Some terminal_note"
    using date_note_not_terminal [of "case tok of Some t \<Rightarrow> t | None \<Rightarrow> []"] by simp
  then show ?thesis using assms t
    by (auto simp: need_date_def Let_def truthy_def split: if_splits option.splits)
qed

lemma csi_note_not_terminal: "snd (normalize_csi tok) \<noteq> Some terminal_note"
  by (simp add: normalize_csi_def Let_def terminal_note_def)

lemma family_CSI_reject_notes:
  assumes "family_CSI prefix rest iss = Inr (Reject iss')" "terminal_note \<notin> set iss"
  shows "terminal_note \<notin> set iss'"
proof -
  have g: "''Missing CSI section.'' \<noteq> terminal_note"
    "''Invalid CSI-Section (require NN-NN-NN or NN-NN-NN-NN).'' \<noteq> terminal_note"
    "''Invalid or missing date.'' \<noteq> terminal_note"
    by (simp_all add: terminal_note_def)
  show ?thesis
  proof (cases "length rest < 2")
    case True
    then show ?thesis using assms g by (auto simp: family_CSI_def)
  next
    case False
    obtain d0 i1 where nd0: "need_date (Some (rest ! 0)) iss = (d0, i1)" by (metis prod.exhaust)
    have t1: "terminal_note \<notin> set i1" using nd0 assms(2) by (rule need_date_no_terminal)
    obtain csi cnote where nc: "normalize_csi (rest ! 0) = (csi, cnote)" by (metis prod.exhaust)
    have cn: "cnote \<noteq> Some terminal_note" using csi_note_not_terminal [of "rest ! 0"] nc by simp
    define i2 where "i2 = (if truthy cnote then i1 @ [case cnote of Some n \<Rightarrow> n | None \<Rightarrow> []] else i1)"
    have t2: "terminal_note \<notin> set i2" using t1 cn
      by (auto simp: i2_def truthy_def split: option.splits)
    obtain d1 i3 where nd1: "need_date (Some (rest ! 1)) i2 = (d1, i3)" by (metis prod.exhaust)
    have t3: "terminal_note \<notin> set i3" using nd1 t2 by (rule need_date_no_terminal)
    show ?thesis using assms(1) False nd0 nc nd1 t1 t3 g
      by (auto simp: family_CSI_def bindE_def py_index_def Let_def i2_def
          split: if_splits option.splits)
  qed
qed

lemma audit_tokens_no_terminal: "terminal_note \<notin> set (fst (audit_tokens n o'))"
  by (simp add: audit_tokens_def Let_def terminal_note_def case_prod_beta)

lemma requires_csi_prefix:
  assumes "p \<in> set REQUIRES_CSI"
  shows "re_prefix p" "p \<noteq> ''COR''" "p \<noteq> ''QA''" "p \<noteq> ''AU''" "p \<noteq> ''FDM''" "p \<noteq> ''TF''"
    "p \<notin> set REQUIRES_ID_ANY"
  using assms
  by (auto simp: REQUIRES_CSI_def REQUIRES_ID_ANY_def re_prefix_def drop_final_newline_def
      is_upper_AZ_def)

lemma dispatch_csi:
  assumes "p \<in> set REQUIRES_CSI"
  shows "dispatch p rest iss = family_CSI p rest iss"
  using requires_csi_prefix [OF assms] assms by (simp add: dispatch_def bindE_def)

section \<open>The result of an accepted name\<close>

lemma audit_filename_accept:
  assumes out: "audit_outcome n = Inr (Accept p idp d traw hr iss0)"
      and ff: "finalize_fields p idp d traw hr iss0 = ((idc, t, r), iss)"
  shows "audit_filename n =
           Inr (Some (canonical_stem p idc d t r @ snd (split_ext (strip n))),
                (if t = [] then iss @ [underscore_note] else iss),
                canonical_stem p idc d t r @ snd (split_ext (strip n)) \<noteq> strip n)"
proof -
  note a = audit_outcome_accept [OF out]
  have "finalize_stem p idp d traw hr iss0 =
           (canonical_stem p idc d t r, if t = [] then iss @ [underscore_note] else iss)"
    using a(1,2,4,5) ff by (rule finalize_stem_form)
  then show ?thesis
    by (simp add: audit_filename_def out bindE_def finalize_def Let_def)
qed

section \<open>Names that the audit leaves unchanged\<close>

lemma rstrip_append_spaces: "list_all is_space e \<Longrightarrow> rstrip (u @ e) = rstrip u"
  using dropWhile_append2 [of "rev e" is_space "rev u"]
  by (simp add: rstrip_def list_all_iff)

lemma rstrip_nonspace_end:
  assumes "y \<noteq> []" "\<not> is_space (last y)"
  shows "rstrip (z @ y) = z @ y"
proof -
  from assms obtain ys c where y: "y = ys @ [c]" "\<not> is_space c"
    by (metis append_butlast_last_id)
  then show ?thesis by (simp add: rstrip_def)
qed

lemma strip_append_spaces:
  assumes "list_all is_space e"
  shows "strip (t @ e) = strip t"
proof (cases "\<exists>c\<in>set t. \<not> is_space c")
  case True
  then have "lstrip (t @ e) = lstrip t @ e"
    by (auto simp: lstrip_def dropWhile_append1)
  then show ?thesis using assms by (simp add: strip_def rstrip_append_spaces)
next
  case False
  then have "lstrip (t @ e) = []" "lstrip t = []"
    using assms by (auto simp: lstrip_def list_all_iff)
  then show ?thesis by (simp add: strip_def)
qed

lemma strip_drop_final_newline: "strip (drop_final_newline x) = strip x"
proof (cases "x \<noteq> [] \<and> last x = CHR 0x0A")
  case True
  then have "x = butlast x @ [CHR 0x0A]" using append_butlast_last_id by metis
  then have "strip x = strip (butlast x)"
    using strip_append_spaces [of "[CHR 0x0A]" "butlast x"] is_space_newline by simp
  then show ?thesis using True by (simp add: drop_final_newline_def)
next
  case False
  then show ?thesis by (auto simp: drop_final_newline_def)
qed

lemma strip_hd: "strip n \<noteq> [] \<Longrightarrow> \<not> is_space (hd (strip n))"
proof -
  assume ne: "strip n \<noteq> []"
  have "rev (lstrip n) = takeWhile is_space (rev (lstrip n)) @ dropWhile is_space (rev (lstrip n))"
    by simp
  then have "lstrip n = strip n @ rev (takeWhile is_space (rev (lstrip n)))"
    unfolding strip_def rstrip_def by (metis rev_append rev_rev_ident)
  then have h: "hd (lstrip n) = hd (strip n)" using ne by (metis hd_append2)
  have "lstrip n \<noteq> []" using ne by (auto simp: strip_def rstrip_def)
  then have "\<not> is_space (hd (lstrip n))" unfolding lstrip_def by (rule hd_dropWhile)
  then show ?thesis using h by simp
qed

lemma strip_strip: "strip (strip n) = strip n"
proof (cases "strip n = []")
  case True
  have "strip [] = []" by (simp add: strip_def lstrip_def rstrip_def)
  then show ?thesis unfolding True .
next
  case False
  then show ?thesis using strip_hd strip_last by (intro strip_id) auto
qed

lemma alnum_not_special:
  assumes "is_alnum c"
  shows "\<not> is_space c" "c \<noteq> CHR ''.''"
  using assms
  by (auto simp: is_alnum_def is_upper_AZ_def is_lower_az_def is_digit_def is_space_def)

lemma split_ext_append: "fst (split_ext o') @ snd (split_ext o') = o'"
  by (simp add: split_ext_def Let_def)

lemma split_ext_dot_tail:
  assumes "list_all is_alnum al"
  shows "split_ext (z @ CHR ''.'' # al) = (z, CHR ''.'' # al)"
proof -
  have nd: "\<forall>c\<in>set (rev al). c \<noteq> CHR ''.''"
    using assms by (auto simp: list_all_iff dest: alnum_not_special(2))
  have "takeWhile (\<lambda>c. c \<noteq> CHR ''.'') (rev al @ CHR ''.'' # rev z) = rev al"
    using nd by (simp add: takeWhile_tail)
  then show ?thesis by (simp add: split_ext_def Let_def)
qed

lemma space_before_ext_stem:
  assumes "m_space_before_ext x"
  shows "fst (split_ext (strip x)) = [] \<or> is_space (last (fst (split_ext (strip x))))"
proof -
  define t where "t = drop_final_newline x"
  define a where "a = takeWhile is_alnum (rev t)"
  from assms obtain w rest' where
    a: "a \<noteq> []" and dw: "dropWhile is_alnum (rev t) = CHR ''.'' # w # rest'" and w: "is_space w"
    unfolding m_space_before_ext_def Let_def t_def a_def
    by (auto split: list.splits)
  have "rev t = a @ CHR ''.'' # w # rest'"
    using takeWhile_dropWhile_id [of is_alnum "rev t"] dw by (simp add: a_def)
  then have "t = rev (a @ CHR ''.'' # w # rest')" by (metis rev_rev_ident)
  then have tt: "t = rev rest' @ w # CHR ''.'' # rev a" by simp
  have al: "list_all is_alnum (rev a)"
    unfolding a_def by (auto simp: list_all_iff dest: set_takeWhileD)
  have lasty: "last (CHR ''.'' # rev a) = hd a" using a by (simp add: last_rev)
  have "hd a \<in> set a" using a by simp
  then have "is_alnum (hd a)" unfolding a_def by (auto dest: set_takeWhileD)
  then have ns: "\<not> is_space (last (CHR ''.'' # rev a))" using lasty alnum_not_special(1) by simp
  have nd: "\<not> is_space (CHR ''.'')" by (simp add: is_space_def)
  have sx: "strip x = strip t" unfolding t_def by (rule strip_drop_final_newline [symmetric])
  show ?thesis
  proof (cases "\<exists>c\<in>set (rev rest'). \<not> is_space c")
    case True
    define pre where "pre = dropWhile is_space (rev rest')"
    from True obtain c where c: "c \<in> set (rev rest')" "\<not> is_space c" by blast
    have "lstrip t = pre @ w # CHR ''.'' # rev a"
      unfolding lstrip_def tt pre_def using c by (rule dropWhile_append1)
    then have "strip t = (pre @ [w]) @ CHR ''.'' # rev a"
      using rstrip_nonspace_end [of "CHR ''.'' # rev a" "pre @ [w]"] ns
      by (simp add: strip_def)
    then have "split_ext (strip x) = (pre @ [w], CHR ''.'' # rev a)"
      using split_ext_dot_tail [OF al, of "pre @ [w]"] sx by simp
    then show ?thesis using w by simp
  next
    case False
    then have "dropWhile is_space (rev rest' @ w # CHR ''.'' # rev a) =
               dropWhile is_space (w # CHR ''.'' # rev a)"
      by (intro dropWhile_append2) auto
    then have "lstrip t = CHR ''.'' # rev a"
      using w nd by (simp add: lstrip_def tt)
    then have "strip t = [] @ CHR ''.'' # rev a"
      using rstrip_nonspace_end [of "CHR ''.'' # rev a" "[]"] ns
      by (simp add: strip_def)
    then have "split_ext (strip x) = ([], CHR ''.'' # rev a)"
      using split_ext_dot_tail [OF al, of "[]"] sx by simp
    then show ?thesis by simp
  qed
qed

text \<open>
  A result with \<open>changed = false\<close> is the name without its surrounding white space,
  and the audit of that name gives the same result again.
\<close>

lemma unchanged_name_is_stable:
  assumes "audit_filename n = Inr (Some s, notes, False)"
  shows "s = strip n \<and> audit_filename s = Inr (Some s, notes, False)"
proof -
  obtain out where out: "audit_outcome n = Inr out" using audit_outcome_total by blast
  have af: "audit_filename n = Inr (case out of
              Empty \<Rightarrow> (Some [], [''Empty value''], True)
            | Skip \<Rightarrow> (None, [], False)
            | Reject issues \<Rightarrow> assemble_decision None issues
            | Accept prefix id_part date_token title_raw hard_rev issues \<Rightarrow>
                (let original = strip n
                 in finalize original (snd (split_ext original)) prefix id_part date_token
                      title_raw hard_rev issues))"
    by (simp add: audit_filename_def out bindE_def)
  obtain p idp d traw hr iss0 where acc: "out = Accept p idp d traw hr iss0"
    using assms af by (cases out) (auto simp: assemble_decision_None)
  obtain idc t r iss where ff: "finalize_fields p idp d traw hr iss0 = ((idc, t, r), iss)"
    by (metis prod_cases3 prod.exhaust)
  let ?o = "strip n"
  let ?c = "canonical_stem p idc d t r"
  from audit_filename_accept [OF out [unfolded acc] ff] assms
  have s: "s = ?c @ snd (split_ext ?o)" and eq: "?c @ snd (split_ext ?o) = ?o"
    by simp_all
  then have so: "s = ?o" by simp
  note a = audit_outcome_accept [OF out [unfolded acc]]
  note fp = finalize_fields_props [OF ff a(5)]
  note rp = is_rev_token_props [OF fp(1)]
  have cne: "?c \<noteq> []" using a(1) by (simp add: canonical_stem_def)
  have "?c @ snd (split_ext ?o) = fst (split_ext ?o) @ snd (split_ext ?o)"
    using eq split_ext_append [of ?o] by simp
  then have st: "fst (split_ext ?o) = ?c" by simp
  have "last ?c = last r" using rp(1) by (rule canonical_stem_last)
  then have lns: "\<not> is_space (last ?c)" using rp(3) digit_not_special(6) by simp
  have oo: "strip ?o = ?o" by (rule strip_strip)
  have no1: "\<not> m_space_before_ext n"
    using space_before_ext_stem [of n] st cne lns by auto
  have no2: "\<not> m_space_before_ext ?o"
    using space_before_ext_stem [of ?o] st cne lns oo by auto
  have "audit_tokens ?o ?o = audit_tokens n ?o"
    using no1 no2 by (simp add: audit_tokens_def)
  then have "audit_outcome ?o = audit_outcome n"
    by (simp add: audit_outcome_def oo Let_def)
  then have "audit_filename ?o = audit_filename n"
    by (simp add: audit_filename_def oo cong: outcome.case_cong)
  then show ?thesis using assms so by simp
qed

section \<open>The audit on given names\<close>

lemma audit_tf_sitemap:
  "audit_filename ''TF_SiteMap_20240310_Rev02.pdf'' =
     Inr (Some ''TF_20240310_SiteMap_Rev02.pdf'',
          [''Reinterpreted first token as Title '' @ em_dash @ '' missing FormID allowed for TF.'',
           ''Normalized revision element.'',
           ''Added Rev0 (missing revision element).''],
          True)"
  by code_simp

lemma audit_scan_pdfpdf:
  "audit_filename ''LG_20240101_Scan_pdfpdf_Rev1.pdf'' =
     Inr (Some ''LG_20240101_Scan_Rev1.pdf'',
          [''Removed extra extension token from title.'',
           ''Removed internal underscores from title.'',
           ''Removed extra extension token from title.'',
           ''Normalized title.''],
          True)"
  by code_simp

lemma outcome_ca_date_first:
  "audit_outcome ''CA_20240101_Report_Rev1.pdf'' = Inr (Reject [''Missing CSI section.''])"
  by code_simp

lemma outcome_xyz:
  "audit_outcome ''XYZ_20240101_Something.pdf'' = Inr (Reject [terminal_note])"
  by code_simp

lemma csi_required_ca: "csi_required ''CA_20240101_Report_Rev1.pdf''"
  by code_simp

lemma csi_required_xyz: "\<not> csi_required ''XYZ_20240101_Something.pdf''"
  by code_simp

lemma outcome_ca_bad_csi:
  "audit_outcome ''CA_XX_20240101_T_Rev1.pdf'' =
     Inr (Reject [''Invalid CSI-Section (require NN-NN-NN or NN-NN-NN-NN).''])"
  by code_simp

lemma csi_required_ca_bad_csi: "csi_required ''CA_XX_20240101_T_Rev1.pdf''"
  by code_simp

lemma outcome_lg_no_title:
  "audit_outcome ''LG_20240101.pdf'' = Inr (Accept ''LG'' None ''20240101'' [] None [])"
  by code_simp

lemma audit_lg_no_title:
  "audit_filename ''LG_20240101.pdf'' =
     Inr (Some ''LG_20240101_Rev0.pdf'',
          [''Added Rev0 (missing revision element).'', underscore_note], True)"
  by code_simp

lemma outcome_qa_plan:
  "audit_outcome ''QA_X1_20240101_Plan_Rev1.pdf'' =
     Inr (Accept ''QA'' (Some ''X1'') ''20240101'' ''Plan_Rev1'' None [])"
  by code_simp

lemma fields_qa_plan:
  "finalize_fields ''QA'' (Some ''X1'') ''20240101'' ''Plan_Rev1'' None [] =
     ((Some ''X1'', ''Plan'', ''Rev1''), [])"
  by code_simp

lemma outcome_sop_long:
  "audit_outcome ''SOP_AAAAAAAAAAAAAAAAAAAAAAAAAAAAAAAAAAAAAAAAAAAAAAAAAA_20240101_Title_Rev1.pdf'' =
     Inr (Accept ''SOP'' (Some ''AAAAAAAAAAAAAAAAAAAAAAAAAAAAAAAAAAAAAAAAAAAAAAAAAA'')
            ''20240101'' ''Title_Rev1'' None [])"
  by code_simp

lemma audit_sop_long:
  "audit_filename ''SOP_AAAAAAAAAAAAAAAAAAAAAAAAAAAAAAAAAAAAAAAAAAAAAAAAAA_20240101_Title_Rev1.pdf'' =
     Inr (Some ''SOP_AAAAAAAAAAAAAAAAAAAAAAAAAAAAAAAAAAAAAAAAAAAAAAAAAA_20240101_Rev1.pdf'',
          [''File name exceeds 64-character limit (title truncated).'', underscore_note],
          True)"
  by code_simp

lemma outcome_sop_id_long_title:
  "audit_outcome ''SOP_AB-12_20240101_ABCDEFGHIJABCDEFGHIJABCDEFGHIJABCDEFGHIJABCDEFGHIJABCDEFGHIJ_Rev3.pdf'' =
     Inr (Accept ''SOP'' (Some ''AB-12'') ''20240101''
            ''ABCDEFGHIJABCDEFGHIJABCDEFGHIJABCDEFGHIJABCDEFGHIJABCDEFGHIJ_Rev3'' None [])"
  by code_simp

lemma fields_sop_id_long_title:
  "finalize_fields ''SOP'' (Some ''AB-12'') ''20240101''
     ''ABCDEFGHIJABCDEFGHIJABCDEFGHIJABCDEFGHIJABCDEFGHIJABCDEFGHIJ_Rev3'' None [] =
     ((Some ''AB-12'', ''ABCDEFGHIJABCDEFGHIJABCDEFGHIJABCDEFGHIJ'', ''Rev3''),
      [''File name exceeds 64-character limit (title truncated).''])"
  by code_simp

lemma rev_sop_id_long_title:
  "extract_rev ''ABCDEFGHIJABCDEFGHIJABCDEFGHIJABCDEFGHIJABCDEFGHIJABCDEFGHIJ_Rev3'' [] =
     ((''ABCDEFGHIJABCDEFGHIJABCDEFGHIJABCDEFGHIJABCDEFGHIJABCDEFGHIJ'', ''Rev3''), [])"
  by code_simp

lemma title_sop_id_long_title:
  "sanitize_title ''ABCDEFGHIJABCDEFGHIJABCDEFGHIJABCDEFGHIJABCDEFGHIJABCDEFGHIJ'' [] =
     (''ABCDEFGHIJABCDEFGHIJABCDEFGHIJABCDEFGHIJABCDEFGHIJABCDEFGHIJ'', [])"
  by code_simp

lemma audit_tf_canonical:
  "audit_filename ''TF_20240310_SiteMap_Rev2.pdf'' =
     Inr (Some ''TF_20240310_SiteMap_Rev2.pdf'',
          [''No FormID provided '' @ em_dash @ '' allowed for TF.''], False)"
  by code_simp

lemma audit_sop_bad_id:
  "audit_filename ''SOP_!!_20240101_T_Rev1.pdf'' =
     Inr (Some ''SOP_20240101_T_Rev1.pdf'', [''Removed special characters from SOP-ID.''], True)"
  by code_simp

lemma audit_sop_no_id:
  "audit_filename ''SOP_20240101_T_Rev1.pdf'' =
     Inr (Some [],
          [''Missing SOP-ID before date. Expected SOP_[SOP-ID]_[Date]_[Title]_Rev##.'',
           ''Does not follow CTA file naming convention.''],
          True)"
  by code_simp

lemma audit_lg_pdfpdfpdf:
  "audit_filename ''LG_20240101_pdfpdfpdf_Rev1.pdf'' =
     Inr (Some ''LG_20240101_pdf_Rev1.pdf'',
          [''Removed extra extension token from title.'',
           ''Removed extra extension token from title.'',
           ''Normalized title.''],
          True)"
  by code_simp

lemma audit_lg_pdf:
  "audit_filename ''LG_20240101_pdf_Rev1.pdf'' =
     Inr (Some ''LG_20240101_Rev1.pdf'',
          [''Removed extra extension token from title.'', ''Normalized title.'',
           underscore_note],
          True)"
  by code_simp

lemma ipay_exempt:
  "list_ex (startswith (strip ''I-PAY_invoice_0001.pdf'')) IGNORE_PREFIXES"
  by code_simp

section \<open>The stem and the extension of a suggestion\<close>

lemma id_ok_None [simp]: "id_ok None"
  by (simp add: id_ok_def)

lemma sanitize_id_any_chars: "list_all is_alnum_dash (fst (sanitize_id_any raw ns label))"
  by (simp add: sanitize_id_any_def Let_def case_prod_beta list_all_iff)

lemma sanitize_id_any_ok: "sanitize_id_any raw ns label = (i, ns') \<Longrightarrow> id_ok (Some i)"
  using sanitize_id_any_chars [of raw ns label] by (simp add: id_ok_def)

lemma sanitize_ids_chars:
  "list_all (list_all is_alnum_dash) (fst (sanitize_ids ts iss))"
proof (induction ts arbitrary: iss)
  case Nil
  then show ?case by simp
next
  case (Cons t ts)
  obtain t' iss' where a: "sanitize_id_any t iss ''ID'' = (t', iss')" by (metis prod.exhaust)
  then have "list_all is_alnum_dash t'" using sanitize_id_any_chars [of t iss "''ID''"] by simp
  then show ?case using Cons [of iss'] a by (simp add: case_prod_beta)
qed

lemma py_join_chars:
  assumes "list_all P sep" "list_all (list_all P) xs"
  shows "list_all P (py_join sep xs)"
  using assms by (induction sep xs rule: py_join.induct) simp_all

lemma is_alnum_dash_dash: "is_alnum_dash (CHR ''-'')"
  by (simp add: is_alnum_dash_def)

lemma digit_alnum_dash: "is_digit c \<Longrightarrow> is_alnum_dash c"
  by (simp add: is_alnum_dash_def is_alnum_def)

lemma digits_alnum_dash: "list_all is_digit s \<Longrightarrow> list_all is_alnum_dash s"
  by (auto simp: list_all_iff digit_alnum_dash)

lemma take_1_char: "take 1 s = [c] \<Longrightarrow> list_all is_alnum_dash (take 1 s) = is_alnum_dash c"
  by simp

lemma take_drop_split:
  "take (a + b) (drop k t) = take a (drop k t) @ take b (drop (a + k) t)"
  by (simp add: take_add)

lemma re_csi3_chars:
  assumes "re_csi3 t" "drop 8 t = []"
  shows "list_all is_alnum_dash t"
proof -
  have 0: "t = take 8 (drop 0 t)" using assms(2) by simp
  have 1: "take 8 (drop 0 t) = take 2 t @ take 6 (drop 2 t)"
    using take_drop_split [of 2 6 0 t] by simp
  have 2: "take 6 (drop 2 t) = take 1 (drop 2 t) @ take 5 (drop 3 t)"
    using take_drop_split [of 1 5 2 t] by (simp add: numeral_eq_Suc)
  have 3: "take 5 (drop 3 t) = take 2 (drop 3 t) @ take 3 (drop 5 t)"
    using take_drop_split [of 2 3 3 t] by simp
  have 4: "take 3 (drop 5 t) = take 1 (drop 5 t) @ take 2 (drop 6 t)"
    using take_drop_split [of 1 2 5 t] by (simp add: numeral_eq_Suc)
  have e: "t = take 2 t @ take 1 (drop 2 t) @ take 2 (drop 3 t) @ take 1 (drop 5 t) @
               take 2 (drop 6 t)"
    using 0 1 2 3 4 by metis
  have "list_all is_alnum_dash (take 2 t @ take 1 (drop 2 t) @ take 2 (drop 3 t) @
          take 1 (drop 5 t) @ take 2 (drop 6 t))"
    using assms(1)
    by (simp add: re_csi3_def digits_n_def digits_alnum_dash is_alnum_dash_dash)
  then show ?thesis using e by metis
qed

lemma re_csi4_chars:
  assumes "re_csi4 t" "drop 11 t = []"
  shows "list_all is_alnum_dash t"
proof -
  have 0: "t = take 11 (drop 0 t)" using assms(2) by simp
  have 1: "take 11 (drop 0 t) = take 2 t @ take 9 (drop 2 t)"
    using take_drop_split [of 2 9 0 t] by simp
  have 2: "take 9 (drop 2 t) = take 1 (drop 2 t) @ take 8 (drop 3 t)"
    using take_drop_split [of 1 8 2 t] by (simp add: numeral_eq_Suc)
  have 3: "take 8 (drop 3 t) = take 2 (drop 3 t) @ take 6 (drop 5 t)"
    using take_drop_split [of 2 6 3 t] by simp
  have 4: "take 6 (drop 5 t) = take 1 (drop 5 t) @ take 5 (drop 6 t)"
    using take_drop_split [of 1 5 5 t] by (simp add: numeral_eq_Suc)
  have 5: "take 5 (drop 6 t) = take 2 (drop 6 t) @ take 3 (drop 8 t)"
    using take_drop_split [of 2 3 6 t] by simp
  have 6: "take 3 (drop 8 t) = take 1 (drop 8 t) @ take 2 (drop 9 t)"
    using take_drop_split [of 1 2 8 t] by (simp add: numeral_eq_Suc)
  have e: "t = take 2 t @ take 1 (drop 2 t) @ take 2 (drop 3 t) @ take 1 (drop 5 t) @
               take 2 (drop 6 t) @ take 1 (drop 8 t) @ take 2 (drop 9 t)"
    using 0 1 2 3 4 5 6 by metis
  have "list_all is_alnum_dash (take 2 t @ take 1 (drop 2 t) @ take 2 (drop 3 t) @
          take 1 (drop 5 t) @ take 2 (drop 6 t) @ take 1 (drop 8 t) @ take 2 (drop 9 t))"
    using assms(1)
    by (simp add: re_csi4_def digits_n_def digits_alnum_dash is_alnum_dash_dash)
  then show ?thesis using e by metis
qed

lemma filter_digits_drop: "list_all is_alnum_dash (drop k (filter is_digit t))"
  by (auto simp: list_all_iff digit_alnum_dash dest!: in_set_dropD)

lemma filter_digits_take: "list_all is_alnum_dash (take n (filter is_digit t))"
  by (auto simp: list_all_iff digit_alnum_dash dest!: in_set_takeD)

lemma filter_digits_alnum_dash: "list_all is_alnum_dash (take n (drop k (filter is_digit t)))"
  by (auto simp: list_all_iff digit_alnum_dash dest!: in_set_takeD in_set_dropD)

lemma normalize_csi_chars:
  assumes "normalize_csi tok = (Some c, nt)"
  shows "list_all is_alnum_dash c"
proof -
  let ?t = "strip tok"
  show ?thesis
  proof (cases "?t \<noteq> [] \<and> (re_csi3 ?t \<or> re_csi4 ?t)")
    case True
    then have c: "c = ?t" using assms by (simp add: normalize_csi_def)
    from True show ?thesis
    proof (elim conjE disjE)
      assume r: "re_csi3 ?t"
      then have "at_dollar (drop 8 ?t)" by (simp add: re_csi3_def)
      then have "drop 8 ?t = []" by (rule at_dollar_strip)
      with r show ?thesis unfolding c by (rule re_csi3_chars)
    next
      assume r: "re_csi4 ?t"
      then have "at_dollar (drop 11 ?t)" by (simp add: re_csi4_def)
      then have "drop 11 ?t = []" by (rule at_dollar_strip)
      with r show ?thesis unfolding c by (rule re_csi4_chars)
    qed
  next
    case False
    then show ?thesis using assms
      by (auto simp: normalize_csi_def Let_def csi_segments3_def csi_segments4_def
          filter_digits_alnum_dash filter_digits_drop filter_digits_take is_alnum_dash_dash
          split: if_splits)
  qed
qed

lemma normalize_csi_ok: "normalize_csi tok = (csi, nt) \<Longrightarrow> id_ok csi"
  using normalize_csi_chars [of tok _ nt] by (cases csi) (simp_all add: id_ok_def)

lemma family_COR_id: "family_COR rest iss = Inr (Accept p idp d traw hr iss') \<Longrightarrow> id_ok idp"
  by (auto simp: family_COR_def Let_def split: prod.splits option.splits)

lemma family_QA_id: "family_QA rest iss = Inr (Accept p idp d traw hr iss') \<Longrightarrow> id_ok idp"
  by (auto simp: family_QA_def bindE_def py_index_def Let_def
      split: if_splits prod.splits option.splits dest: sanitize_id_any_ok)

lemma family_AU_id: "family_AU rest iss = Inr (Accept p idp d traw hr iss') \<Longrightarrow> id_ok idp"
  by (auto simp: family_AU_def bindE_def py_index_def Let_def
      split: if_splits prod.splits option.splits dest: sanitize_id_any_ok)

lemma family_FDM_id:
  assumes "family_FDM rest iss = Inr (Accept p idp d traw hr iss')"
  shows "id_ok idp"
proof -
  have "id_ok (Some (py_join ''-'' (filter (\<lambda>t. t \<noteq> []) (fst (sanitize_ids ts is0)))))" for ts is0
    unfolding id_ok_def option.case
    using sanitize_ids_chars [of ts is0]
    by (intro py_join_chars) (auto simp: list_all_iff is_alnum_dash_dash)
  then show ?thesis using assms
    by (auto simp: family_FDM_def Let_def split: if_splits prod.splits option.splits)
      (metis fst_conv)+
qed

lemma family_TF_id:
  "family_TF rest iss = Inr (Return (Accept p idp d traw hr iss')) \<Longrightarrow> id_ok idp"
  by (auto simp: family_TF_def bindE_def py_index_def index_or_None_def Let_def
      simp del: append.simps split: if_splits prod.splits option.splits)

lemma family_ID_ANY_id:
  "family_ID_ANY prefix rest iss = Inr (Accept p idp d traw hr iss') \<Longrightarrow> id_ok idp"
  by (auto simp: family_ID_ANY_def bindE_def py_index_def Let_def
      split: if_splits prod.splits option.splits dest: sanitize_id_any_ok)

lemma family_CSI_id:
  "family_CSI prefix rest iss = Inr (Accept p idp d traw hr iss') \<Longrightarrow> id_ok idp"
  by (auto simp: family_CSI_def bindE_def py_index_def Let_def
      split: if_splits prod.splits option.splits dest: normalize_csi_ok)

lemma family_optional_CSI_id:
  "family_optional_CSI prefix om rest iss = Inr (Accept p idp d traw hr iss') \<Longrightarrow> id_ok idp"
  by (auto simp: family_optional_CSI_def bindE_def py_index_def index_or_None_def Let_def
      split: if_splits prod.splits option.splits dest: normalize_csi_ok)

lemma family_RE_id: "family_RE rest iss = Inr (Accept p idp d traw hr iss') \<Longrightarrow> id_ok idp"
  by (auto simp: family_RE_def bindE_def py_index_def Let_def
      split: if_splits prod.splits option.splits)

lemma family_STANDARD_id:
  "family_STANDARD prefix rest iss = Inr (Accept p idp d traw hr iss') \<Longrightarrow> id_ok idp"
  by (auto simp: family_STANDARD_def bindE_def py_index_def Let_def
      split: if_splits prod.splits option.splits)

lemma dispatch_id:
  assumes "dispatch prefix rest iss = Inr (Accept p idp d traw hr iss')"
  shows "id_ok idp"
proof -
  consider (cor) "prefix = ''COR''" | (qa) "prefix = ''QA''" | (au) "prefix = ''AU''"
    | (fdm) "prefix = ''FDM''"
    | (other) "prefix \<noteq> ''COR''" "prefix \<noteq> ''QA''" "prefix \<noteq> ''AU''" "prefix \<noteq> ''FDM''"
    by blast
  then show ?thesis
  proof cases
    case cor
    then show ?thesis using assms family_COR_id [of rest iss p idp d traw hr iss']
      by (simp add: dispatch_def)
  next
    case qa
    then show ?thesis using assms family_QA_id [of rest iss p idp d traw hr iss']
      by (simp add: dispatch_def)
  next
    case au
    then show ?thesis using assms family_AU_id [of rest iss p idp d traw hr iss']
      by (simp add: dispatch_def)
  next
    case fdm
    then show ?thesis using assms family_FDM_id [of rest iss p idp d traw hr iss']
      by (simp add: dispatch_def)
  next
    case other
    define step where "step = (if prefix = ''TF'' then family_TF rest iss else Inr (Fall_through iss))"
    define cont where "cont = (\<lambda>issues.
             if prefix \<in> set REQUIRES_ID_ANY then family_ID_ANY prefix rest issues
             else if prefix \<in> set REQUIRES_CSI then family_CSI prefix rest issues
             else if prefix = ''PN'' then family_optional_CSI ''PN'' [] rest issues
             else if prefix = ''SP'' then family_optional_CSI ''SP'' [] rest issues
             else if prefix = ''WR'' then
               family_optional_CSI ''WR''
                 [''No CSI provided '' @ em_dash @ '' allowed for overall warranty.''] rest issues
             else if prefix = ''RE'' then family_RE rest issues
             else if prefix \<in> set STANDARD_PREFIXES then family_STANDARD prefix rest issues
             else Inr (Reject (issues @ [terminal_note])))"
    have d: "dispatch prefix rest iss =
        bindE step (\<lambda>s. case s of Return out \<Rightarrow> Inr out | Fall_through issues \<Rightarrow> cont issues)"
      unfolding dispatch_def step_def cont_def using other by (simp only: if_False)
    have c: "id_ok idp" if "cont issues = Inr (Accept p idp d traw hr iss')" for issues
      using that family_ID_ANY_id [of prefix rest issues p idp d traw hr iss']
        family_CSI_id [of prefix rest issues p idp d traw hr iss']
        family_optional_CSI_id [of _ _ rest issues p idp d traw hr iss']
        family_RE_id [of rest issues p idp d traw hr iss']
        family_STANDARD_id [of prefix rest issues p idp d traw hr iss']
      unfolding cont_def
      by (simp split: if_splits)
    show ?thesis
    proof (cases step)
      case (Inl e)
      then show ?thesis using assms d by (simp add: bindE_def)
    next
      case (Inr s)
      show ?thesis
      proof (cases s)
        case (Return out)
        then have "step = Inr (Return (Accept p idp d traw hr iss'))"
          using assms d Inr by (simp add: bindE_def)
        then have "family_TF rest iss = Inr (Return (Accept p idp d traw hr iss'))"
          by (auto simp: step_def split: if_splits)
        then show ?thesis by (rule family_TF_id)
      next
        case (Fall_through issues)
        then have "cont issues = Inr (Accept p idp d traw hr iss')"
          using assms d Inr by (simp add: bindE_def)
        then show ?thesis by (rule c)
      qed
    qed
  qed
qed

lemma audit_outcome_id:
  assumes "audit_outcome n = Inr (Accept p idp d traw hr iss)"
  shows "id_ok idp"
proof -
  obtain issues tokens where at: "audit_tokens n (strip n) = (issues, tokens)"
    by (metis prod.exhaust)
  from assms at
  have "dispatch (tokens ! 0) (drop 1 tokens) issues = Inr (Accept p idp d traw hr iss)"
    by (auto simp: audit_outcome_def Let_def bindE_def py_index_def split: if_splits)
  then show ?thesis by (rule dispatch_id)
qed

lemma re_prefix_no_dot:
  assumes "re_prefix p"
  shows "CHR ''.'' \<notin> set p"
proof -
  let ?t = "drop_final_newline p"
  from assms have t: "list_all is_upper_AZ ?t" by (simp add: re_prefix_def Let_def)
  have nu: "\<not> is_upper_AZ (CHR ''.'')" by (simp add: is_upper_AZ_def)
  have "set p \<subseteq> set ?t \<union> {CHR 0x0A}"
  proof (cases "p \<noteq> [] \<and> last p = CHR 0x0A")
    case True
    then have "butlast p @ [CHR 0x0A] = p" using append_butlast_last_id by metis
    then have "set p = set (butlast p) \<union> {CHR 0x0A}"
      by (metis set_append list.set(1,2) Un_insert_right sup_bot.right_neutral)
    then show ?thesis using True by (simp add: drop_final_newline_def)
  next
    case False
    then show ?thesis by (auto simp: drop_final_newline_def)
  qed
  then show ?thesis using t nu by (auto simp: list_all_iff)
qed

lemma audit_outcome_prefix_no_dot:
  assumes "audit_outcome n = Inr (Accept p idp d traw hr iss)"
  shows "CHR ''.'' \<notin> set p"
proof -
  obtain issues tokens where at: "audit_tokens n (strip n) = (issues, tokens)"
    by (metis prod.exhaust)
  from assms at have rp: "re_prefix (tokens ! 0)"
    and dp: "dispatch (tokens ! 0) (drop 1 tokens) issues = Inr (Accept p idp d traw hr iss)"
    by (auto simp: audit_outcome_def Let_def bindE_def py_index_def split: if_splits)
  from dispatch_accept [OF dp] have "p = tokens ! 0" by simp
  then show ?thesis using re_prefix_no_dot [OF rp] by simp
qed

lemma alnum_dash_no_dot: "list_all is_alnum_dash t \<Longrightarrow> CHR ''.'' \<notin> set t"
proof -
  have "\<not> is_alnum_dash (CHR ''.'')"
    by (simp add: is_alnum_dash_def is_alnum_def is_upper_AZ_def is_lower_az_def is_digit_def)
  then show "list_all is_alnum_dash t \<Longrightarrow> CHR ''.'' \<notin> set t"
    by (auto simp: list_all_iff)
qed

lemma is_rev_token_no_dot:
  assumes "is_rev_token r"
  shows "CHR ''.'' \<notin> set r"
proof -
  from assms obtain ds where r: "r = ''Rev'' @ ds" and ds: "list_all is_digit ds"
    unfolding is_rev_token_def Let_def by (metis append_take_drop_id)
  show ?thesis using r ds by (auto simp: list_all_iff dest: digit_not_special(4))
qed

lemma finalize_fields_id:
  assumes "finalize_fields p idp d traw hr iss0 = ((idc, t, r), iss)" "id_ok idp"
  shows "id_ok idc"
proof -
  have "idc = (case idp of Some i \<Rightarrow> if i \<noteq> [] then Some (filter (\<lambda>c. c \<noteq> CHR ''_'') i) else None
                      | None \<Rightarrow> None)"
    using assms(1) unfolding finalize_fields_def Let_def by (auto split: prod.splits)
  then show ?thesis using assms(2)
    by (auto simp: id_ok_def list_all_iff split: option.splits)
qed

lemma canonical_stem_no_dot:
  assumes "CHR ''.'' \<notin> set p" "CHR ''.'' \<notin> set d" "CHR ''.'' \<notin> set t" "CHR ''.'' \<notin> set r"
      and "id_ok idc"
  shows "CHR ''.'' \<notin> set (canonical_stem p idc d t r)"
  using assms
  by (auto simp: canonical_stem_def id_segment_def id_ok_def split: option.splits
      dest: alnum_dash_no_dot)

lemma split_ext_snd:
  "snd (split_ext o') = [] \<and> CHR ''.'' \<notin> set o' \<or>
   (\<exists>tl. snd (split_ext o') = CHR ''.'' # tl \<and> CHR ''.'' \<notin> set tl)"
proof (cases "CHR ''.'' \<in> set o'")
  case False
  then show ?thesis by (simp add: split_ext_def)
next
  case True
  define tl where "tl = rev (takeWhile (\<lambda>c. c \<noteq> CHR ''.'') (rev o'))"
  have nd: "CHR ''.'' \<notin> set tl" unfolding tl_def by (auto dest: set_takeWhileD)
  have "dropWhile (\<lambda>c. c \<noteq> CHR ''.'') (rev o') \<noteq> []"
    using True by (simp add: dropWhile_eq_Nil_conv)
  then obtain x xs where dw: "dropWhile (\<lambda>c. c \<noteq> CHR ''.'') (rev o') = x # xs"
    by (cases "dropWhile (\<lambda>c. c \<noteq> CHR ''.'') (rev o')") auto
  then have x: "x = CHR ''.''" using hd_dropWhile [of "\<lambda>c. c \<noteq> CHR ''.''" "rev o'"] by simp
  have "rev o' = rev tl @ CHR ''.'' # xs"
    using takeWhile_dropWhile_id [of "\<lambda>c. c \<noteq> CHR ''.''" "rev o'"] dw x by (simp add: tl_def)
  then have "o' = rev (rev tl @ CHR ''.'' # xs)" by (metis rev_rev_ident)
  then have o: "o' = rev xs @ CHR ''.'' # tl" by simp
  have "length o' - (length tl + 1) = length (rev xs)" using o by simp
  then have "snd (split_ext o') = CHR ''.'' # tl"
    using True o unfolding split_ext_def Let_def tl_def [symmetric] by simp
  then show ?thesis using nd by blast
qed

lemma split_ext_rebuild:
  assumes "CHR ''.'' \<notin> set stem"
  shows "split_ext (stem @ snd (split_ext o')) = (stem, snd (split_ext o'))"
proof -
  from split_ext_snd [of o'] show ?thesis
  proof (elim disjE conjE exE)
    assume "snd (split_ext o') = []"
    then show ?thesis using assms by (simp add: split_ext_def)
  next
    fix tl assume e: "snd (split_ext o') = CHR ''.'' # tl" and nd: "CHR ''.'' \<notin> set tl"
    have "\<forall>x\<in>set (rev tl). x \<noteq> CHR ''.''" using nd by auto
    then have "takeWhile (\<lambda>c. c \<noteq> CHR ''.'') (rev tl @ CHR ''.'' # rev stem) = rev tl"
      by (simp add: takeWhile_tail)
    then show ?thesis unfolding e by (simp add: split_ext_def Let_def)
  qed
qed

text \<open>A suggestion that is not empty comes from \<open>finalize\<close>.\<close>

lemma suggestion_accept:
  assumes "audit_filename n = Inr (Some s, ns, ch)" "s \<noteq> []"
  shows "\<exists>p idp d traw hr iss0. audit_outcome n = Inr (Accept p idp d traw hr iss0)"
proof -
  obtain out where out: "audit_outcome n = Inr out" using audit_outcome_total by blast
  then have "audit_filename n = Inr (case out of
              Empty \<Rightarrow> (Some [], [''Empty value''], True)
            | Skip \<Rightarrow> (None, [], False)
            | Reject issues \<Rightarrow> assemble_decision None issues
            | Accept prefix id_part date_token title_raw hard_rev issues \<Rightarrow>
                (let original = strip n
                 in finalize original (snd (split_ext original)) prefix id_part date_token
                      title_raw hard_rev issues))"
    by (simp add: audit_filename_def bindE_def)
  then show ?thesis using assms out by (cases out) (auto simp: assemble_decision_None)
qed

lemma digits_no_dot: "list_all is_digit d \<Longrightarrow> CHR ''.'' \<notin> set d"
  by (auto simp: list_all_iff dest: digit_not_special(4))

lemma suggestion_split_ext:
  assumes out: "audit_outcome n = Inr (Accept p idp d traw hr iss0)"
      and ff: "finalize_fields p idp d traw hr iss0 = ((idc, t, r), iss)"
  shows "split_ext (canonical_stem p idc d t r @ snd (split_ext (strip n))) =
           (canonical_stem p idc d t r, snd (split_ext (strip n)))"
proof -
  note a = audit_outcome_accept [OF out]
  note fp = finalize_fields_props [OF ff a(5)]
  have pd: "CHR ''.'' \<notin> set p" using out by (rule audit_outcome_prefix_no_dot)
  have dd: "CHR ''.'' \<notin> set d" using a(4) by (auto simp: digits_n_def dest: digits_no_dot)
  have td: "CHR ''.'' \<notin> set t" using fp(2) by (rule alnum_dash_no_dot)
  have rd: "CHR ''.'' \<notin> set r" using fp(1) by (rule is_rev_token_no_dot)
  have ic: "id_ok idc" using ff audit_outcome_id [OF out] by (rule finalize_fields_id)
  show ?thesis
    using canonical_stem_no_dot [OF pd dd td rd ic] by (rule split_ext_rebuild)
qed

section \<open>Properties of the audit\<close>

text \<open>
  Claim C1. The audit of \<open>SOP_!!_20240101_T_Rev1.pdf\<close> accepts an identifier that the
  sanitizer has emptied and suggests \<open>SOP_20240101_T_Rev1.pdf\<close>, a name without
  identifier, with no truncation note. The audit of that suggestion rejects it: the
  suggestion is empty, \<open>changed\<close> is true and there are two notes.
\<close>

theorem reaudit_rejects_suggestion:
  "audit_filename ''SOP_!!_20240101_T_Rev1.pdf'' =
     Inr (Some ''SOP_20240101_T_Rev1.pdf'', [''Removed special characters from SOP-ID.''], True) \<and>
   ''SOP_20240101_T_Rev1.pdf'' \<noteq> [] \<and>
   truncation_note \<notin> set [''Removed special characters from SOP-ID.''] \<and>
   audit_filename ''SOP_20240101_T_Rev1.pdf'' =
     Inr (Some [],
          [''Missing SOP-ID before date. Expected SOP_[SOP-ID]_[Date]_[Title]_Rev##.'',
           ''Does not follow CTA file naming convention.''],
          True)"
  using audit_sop_bad_id audit_sop_no_id by (simp add: truncation_note_def)

text \<open>
  Claim C2, as the code has it. For a name that reaches \<open>finalize\<close>, the suggestion is
  the stem \<open>prefix[_identifier]_date[_title]_revision\<close> followed by the extension of the
  name, and the stem is what \<open>split_ext\<close> cuts off the suggestion before its last dot.
  Four of the fields stand in it whole: the prefix is the first token of the name, the
  date has its eight digits, the identifier is the one of the family without its
  underscores, and the revision is the one the family fixed or else the one
  \<open>extract_rev\<close> found. The title alone is cut: it is the sanitized title without its
  last characters, as many as the stem with the whole title has beyond 64 (all of them
  when the title is shorter than that), and the truncation note is recorded exactly when
  there is such an overflow. The stem has at most 64 characters when the title could
  absorb the overflow: always when there is no identifier, and when the identifier has at
  most 44 characters. In general its length is bounded by the larger of 64 and the length
  of the four other fields with their separators.
\<close>

theorem stem_length_budget:
  assumes "audit_outcome n = Inr (Accept p idp d traw hr iss0)"
      and "finalize_fields p idp d traw hr iss0 = ((idc, t, r), iss)"
      and "extract_rev traw iss0 = ((tnr, rn), iss1)"
      and "sanitize_title tnr iss1 = (t0, iss2)"
  shows "audit_filename n =
           Inr (Some (canonical_stem p idc d t r @ snd (split_ext (strip n))),
                (if t = [] then iss @ [underscore_note] else iss),
                canonical_stem p idc d t r @ snd (split_ext (strip n)) \<noteq> strip n) \<and>
         fst (split_ext (canonical_stem p idc d t r @ snd (split_ext (strip n)))) =
           canonical_stem p idc d t r \<and>
         hd (snd (audit_tokens n (strip n))) = p \<and>
         digits_n 8 d \<and>
         idc = clean_id idp \<and>
         r = (case hr of Some h \<Rightarrow> if h \<noteq> [] then h else rn | None \<Rightarrow> rn) \<and>
         t = take (length t0 - (full_length p idc d t0 r - 64)) t0 \<and>
         iss = (if 64 < full_length p idc d t0 r then iss2 @ [truncation_note] else iss2) \<and>
         length (canonical_stem p idc d t r) \<le>
           max 64 (length p + length (id_segment idc) + length d + length r + 2) \<and>
         (\<not> truthy idc \<longrightarrow> length (canonical_stem p idc d t r) \<le> 64) \<and>
         (\<forall>i. idc = Some i \<and> length i \<le> 44 \<longrightarrow> length (canonical_stem p idc d t r) \<le> 64)"
proof -
  note a = audit_outcome_accept [OF assms(1)]
  note fp = finalize_fields_props [OF assms(2) a(5)]
  note rp = is_rev_token_props [OF fp(1)]
  note fe = finalize_fields_exact [OF assms(2-4)]
  have dl: "length d = 8" using a(4) by (simp add: digits_n_def)
  have len: "length (canonical_stem p idc d t r) =
     length p + 1 + length (id_segment idc) + length d + 1 + (if t = [] then 0 else length t + 1) + length r"
    by (rule canonical_stem_length)
  have 1: "length (canonical_stem p idc d t r) \<le>
           max 64 (length p + length (id_segment idc) + length d + length r + 2)"
    using fp(4) len by auto
  have 2: "length (canonical_stem p idc d t r) \<le> 64" if "\<not> truthy idc"
  proof -
    from that have "id_segment idc = []"
      by (auto simp: truthy_def id_segment_def split: option.splits)
    then show ?thesis using 1 a(3) dl rp(4) by simp
  qed
  have 3: "length (canonical_stem p idc d t r) \<le> 64" if "idc = Some i" "length i \<le> 44" for i
  proof -
    from that have "length (id_segment idc) \<le> 45" by (simp add: id_segment_def)
    then show ?thesis using 1 a(3) dl rp(4) by simp
  qed
  have 4: "fst (split_ext (canonical_stem p idc d t r @ snd (split_ext (strip n)))) =
           canonical_stem p idc d t r"
    using suggestion_split_ext [OF assms(1,2)] by simp
  have 5: "hd (snd (audit_tokens n (strip n))) = p"
    using audit_outcome_prefix [OF assms(1)] by simp
  show ?thesis
    using audit_filename_accept [OF assms(1,2)] 1 2 3 4 5 a(4) fe
    by blast
qed

text \<open>The theorem at a name with an identifier and a title of 60 characters.\<close>

theorem stem_length_budget_witness:
  "audit_outcome ''SOP_AB-12_20240101_ABCDEFGHIJABCDEFGHIJABCDEFGHIJABCDEFGHIJABCDEFGHIJABCDEFGHIJ_Rev3.pdf'' =
     Inr (Accept ''SOP'' (Some ''AB-12'') ''20240101''
            ''ABCDEFGHIJABCDEFGHIJABCDEFGHIJABCDEFGHIJABCDEFGHIJABCDEFGHIJ_Rev3'' None []) \<and>
   finalize_fields ''SOP'' (Some ''AB-12'') ''20240101''
     ''ABCDEFGHIJABCDEFGHIJABCDEFGHIJABCDEFGHIJABCDEFGHIJABCDEFGHIJ_Rev3'' None [] =
     ((Some ''AB-12'', ''ABCDEFGHIJABCDEFGHIJABCDEFGHIJABCDEFGHIJ'', ''Rev3''),
      [''File name exceeds 64-character limit (title truncated).'']) \<and>
   extract_rev ''ABCDEFGHIJABCDEFGHIJABCDEFGHIJABCDEFGHIJABCDEFGHIJABCDEFGHIJ_Rev3'' [] =
     ((''ABCDEFGHIJABCDEFGHIJABCDEFGHIJABCDEFGHIJABCDEFGHIJABCDEFGHIJ'', ''Rev3''), []) \<and>
   sanitize_title ''ABCDEFGHIJABCDEFGHIJABCDEFGHIJABCDEFGHIJABCDEFGHIJABCDEFGHIJ'' [] =
     (''ABCDEFGHIJABCDEFGHIJABCDEFGHIJABCDEFGHIJABCDEFGHIJABCDEFGHIJ'', []) \<and>
   audit_filename ''SOP_AB-12_20240101_ABCDEFGHIJABCDEFGHIJABCDEFGHIJABCDEFGHIJABCDEFGHIJABCDEFGHIJ_Rev3.pdf'' =
     Inr (Some ''SOP_AB-12_20240101_ABCDEFGHIJABCDEFGHIJABCDEFGHIJABCDEFGHIJ_Rev3.pdf'',
          [''File name exceeds 64-character limit (title truncated).''], True) \<and>
   fst (split_ext ''SOP_AB-12_20240101_ABCDEFGHIJABCDEFGHIJABCDEFGHIJABCDEFGHIJ_Rev3.pdf'') =
     ''SOP_AB-12_20240101_ABCDEFGHIJABCDEFGHIJABCDEFGHIJABCDEFGHIJ_Rev3'' \<and>
   full_length ''SOP'' (Some ''AB-12'') ''20240101''
     ''ABCDEFGHIJABCDEFGHIJABCDEFGHIJABCDEFGHIJABCDEFGHIJABCDEFGHIJ'' ''Rev3'' = 84 \<and>
   ''ABCDEFGHIJABCDEFGHIJABCDEFGHIJABCDEFGHIJ'' =
     take (60 - (84 - 64)) ''ABCDEFGHIJABCDEFGHIJABCDEFGHIJABCDEFGHIJABCDEFGHIJABCDEFGHIJ'' \<and>
   length ''SOP_AB-12_20240101_ABCDEFGHIJABCDEFGHIJABCDEFGHIJABCDEFGHIJ_Rev3'' = 64"
  using stem_length_budget [OF outcome_sop_id_long_title fields_sop_id_long_title
      rev_sop_id_long_title title_sop_id_long_title]
    outcome_sop_id_long_title fields_sop_id_long_title rev_sop_id_long_title
    title_sop_id_long_title
  by (simp add: canonical_stem_def id_segment_def split_ext_def strip_def lstrip_def rstrip_def
        is_space_def full_length_def truncation_note_def clean_id_def)

text \<open>
  The claim as stated fails for an identifier of 50 characters: the title is cut to
  nothing and the stem still has 68 characters.
\<close>

theorem stem_length_counterexample:
  "audit_outcome ''SOP_AAAAAAAAAAAAAAAAAAAAAAAAAAAAAAAAAAAAAAAAAAAAAAAAAA_20240101_Title_Rev1.pdf'' =
     Inr (Accept ''SOP'' (Some ''AAAAAAAAAAAAAAAAAAAAAAAAAAAAAAAAAAAAAAAAAAAAAAAAAA'')
            ''20240101'' ''Title_Rev1'' None []) \<and>
   audit_filename ''SOP_AAAAAAAAAAAAAAAAAAAAAAAAAAAAAAAAAAAAAAAAAAAAAAAAAA_20240101_Title_Rev1.pdf'' =
     Inr (Some ''SOP_AAAAAAAAAAAAAAAAAAAAAAAAAAAAAAAAAAAAAAAAAAAAAAAAAA_20240101_Rev1.pdf'',
          [''File name exceeds 64-character limit (title truncated).'', underscore_note],
          True) \<and>
   fst (split_ext ''SOP_AAAAAAAAAAAAAAAAAAAAAAAAAAAAAAAAAAAAAAAAAAAAAAAAAA_20240101_Rev1.pdf'') =
     ''SOP_AAAAAAAAAAAAAAAAAAAAAAAAAAAAAAAAAAAAAAAAAAAAAAAAAA_20240101_Rev1'' \<and>
   length ''SOP_AAAAAAAAAAAAAAAAAAAAAAAAAAAAAAAAAAAAAAAAAAAAAAAAAA_20240101_Rev1'' = 68"
  using outcome_sop_long audit_sop_long by (simp add: split_ext_def)

text \<open>
  Claim C3. When \<open>audit_filename\<close> leaves through \<open>assemble_decision(None, issues)\<close>,
  the suggestion is the empty string, \<open>changed\<close> is true and the notes are not empty.
  The notes end with the terminal message on every path but those of the group that
  requires a CSI section: when the name has two tokens or more and the first is a prefix
  of that group, the last note is one of the three failure notes of the group, and the
  terminal message is nowhere in the notes.
\<close>

theorem csi_failures_omit_terminal_note:
  assumes "audit_outcome n = Inr (Reject iss)"
  shows "audit_filename n = Inr (Some [], iss, True) \<and> iss \<noteq> [] \<and>
         (if csi_required n
          then last iss \<in> set csi_failure_notes \<and> terminal_note \<notin> set iss
          else last iss = terminal_note)"
proof -
  obtain issues tokens where at: "audit_tokens n (strip n) = (issues, tokens)"
    by (metis prod.exhaust)
  have af: "audit_filename n = Inr (Some [], iss, True)"
    using assms by (simp add: audit_filename_def bindE_def assemble_decision_None)
  note r = audit_outcome_reject [OF assms]
  have nt: "terminal_note \<notin> set issues" using audit_tokens_no_terminal [of n "strip n"] at by simp
  have tn: "terminal_note \<notin> set csi_failure_notes"
    by (simp add: csi_failure_notes_def terminal_note_def)
  show ?thesis
  proof (cases "csi_required n")
    case True
    then have l: "2 \<le> length tokens" and h: "hd tokens \<in> set REQUIRES_CSI"
      using at by (simp_all add: csi_required_def)
    have h0: "tokens ! 0 = hd tokens" using l by (cases tokens) auto
    have "audit_outcome n = family_CSI (hd tokens) (drop 1 tokens) issues"
      using assms at l h0 requires_csi_prefix(1) [OF h] dispatch_csi [OF h]
      by (auto simp: audit_outcome_def Let_def bindE_def py_index_def split: if_splits)
    then have f: "family_CSI (hd tokens) (drop 1 tokens) issues = Inr (Reject iss)"
      using assms by simp
    show ?thesis
      using family_CSI_reject [OF f] family_CSI_reject_notes [OF f nt] af True by simp
  next
    case False
    have "last iss = terminal_note"
    proof (cases "length tokens < 2 \<or> \<not> re_prefix (tokens ! 0)")
      case True
      then have "iss = issues @ [terminal_note]"
        using assms at
        by (auto simp: audit_outcome_def Let_def bindE_def py_index_def split: if_splits)
      then show ?thesis by simp
    next
      case b: False
      then have d: "dispatch (tokens ! 0) (drop 1 tokens) issues = Inr (Reject iss)"
        using assms at
        by (auto simp: audit_outcome_def Let_def bindE_def py_index_def split: if_splits)
      have "hd tokens = tokens ! 0" using b by (cases tokens) auto
      then have "tokens ! 0 \<notin> set REQUIRES_CSI"
        using False b at by (simp add: csi_required_def)
      then show ?thesis using dispatch_reject [OF d] by simp
    qed
    then show ?thesis using af r False by simp
  qed
qed

text \<open>
  The theorem at two failures of the group, the date in the place of the section and a
  section that is none, and at a prefix that no family knows.
\<close>

theorem csi_failures_omit_terminal_note_witness:
  "audit_outcome ''CA_20240101_Report_Rev1.pdf'' = Inr (Reject [''Missing CSI section.'']) \<and>
   audit_filename ''CA_20240101_Report_Rev1.pdf'' =
     Inr (Some [], [''Missing CSI section.''], True) \<and>
   terminal_note \<notin> set [''Missing CSI section.''] \<and>
   audit_outcome ''CA_XX_20240101_T_Rev1.pdf'' =
     Inr (Reject [''Invalid CSI-Section (require NN-NN-NN or NN-NN-NN-NN).'']) \<and>
   audit_filename ''CA_XX_20240101_T_Rev1.pdf'' =
     Inr (Some [], [''Invalid CSI-Section (require NN-NN-NN or NN-NN-NN-NN).''], True) \<and>
   terminal_note \<notin> set [''Invalid CSI-Section (require NN-NN-NN or NN-NN-NN-NN).''] \<and>
   audit_outcome ''XYZ_20240101_Something.pdf'' = Inr (Reject [terminal_note]) \<and>
   audit_filename ''XYZ_20240101_Something.pdf'' = Inr (Some [], [terminal_note], True) \<and>
   last [terminal_note] = terminal_note"
  using csi_failures_omit_terminal_note [OF outcome_ca_date_first]
    csi_failures_omit_terminal_note [OF outcome_ca_bad_csi]
    csi_failures_omit_terminal_note [OF outcome_xyz]
    outcome_ca_date_first outcome_ca_bad_csi outcome_xyz
    csi_required_ca csi_required_ca_bad_csi csi_required_xyz
  by simp

text \<open>
  Claim C4, as the code has it. \<open>audit_filename\<close> of \<open>TF_SiteMap_20240310_Rev02.pdf\<close>
  suggests \<open>TF_20240310_SiteMap_Rev02.pdf\<close>: the two digits of the revision are kept as
  they were found. The note about the reinterpreted first token and the note
  \<open>Normalized revision element.\<close> are present; the note about a missing FormID is not.
\<close>

theorem tf_example_keeps_digits:
  "\<exists>notes. audit_filename ''TF_SiteMap_20240310_Rev02.pdf'' =
              Inr (Some ''TF_20240310_SiteMap_Rev02.pdf'', notes, True) \<and>
     ''Reinterpreted first token as Title '' @ em_dash @ '' missing FormID allowed for TF.''
       \<in> set notes \<and>
     ''Normalized revision element.'' \<in> set notes \<and>
     ''No FormID provided '' @ em_dash @ '' allowed for TF.'' \<notin> set notes"
  using audit_tf_sitemap by (simp add: em_dash_def)

text \<open>The suggestion is not the one with \<open>Rev2\<close> that the claim states.\<close>

theorem tf_example_counterexample:
  "audit_filename ''TF_SiteMap_20240310_Rev02.pdf'' =
     Inr (Some ''TF_20240310_SiteMap_Rev02.pdf'',
          [''Reinterpreted first token as Title '' @ em_dash @ '' missing FormID allowed for TF.'',
           ''Normalized revision element.'',
           ''Added Rev0 (missing revision element).''],
          True) \<and>
   ''TF_20240310_SiteMap_Rev02.pdf'' \<noteq> ''TF_20240310_SiteMap_Rev2.pdf''"
  using audit_tf_sitemap by simp

text \<open>
  Claim C5, as the code has it. For a name that reaches \<open>finalize\<close>, the suggested stem
  has 3 underscores without an identifier and 4 with one, when the title that goes into
  the name is not empty. When that title is empty the doubled separator is collapsed: the
  stem has one underscore fewer, and the note about the underscore count is recorded.
  The stem is what \<open>split_ext\<close> cuts off the suggestion before its last dot.
\<close>

theorem underscore_count_of_suggestion:
  assumes "audit_outcome n = Inr (Accept p idp d traw hr iss0)"
      and "finalize_fields p idp d traw hr iss0 = ((idc, t, r), iss)"
  shows "audit_filename n =
           Inr (Some (canonical_stem p idc d t r @ snd (split_ext (strip n))),
                (if t = [] then iss @ [underscore_note] else iss),
                canonical_stem p idc d t r @ snd (split_ext (strip n)) \<noteq> strip n) \<and>
         fst (split_ext (canonical_stem p idc d t r @ snd (split_ext (strip n)))) =
           canonical_stem p idc d t r \<and>
         count_list (canonical_stem p idc d t r) (CHR ''_'') =
           (if truthy idc then 4 else 3) - (if t = [] then 1 else 0)"
proof -
  note a = audit_outcome_accept [OF assms(1)]
  note fp = finalize_fields_props [OF assms(2) a(5)]
  note rp = is_rev_token_props [OF fp(1)]
  have du: "CHR ''_'' \<notin> set d"
    using a(4) by (auto simp: digits_n_def dest: digits_not_underscore)
  have tu: "CHR ''_'' \<notin> set t" using fp(2) by (rule alnum_dash_not_underscore)
  show ?thesis
    using audit_filename_accept [OF assms] canonical_stem_count [OF a(2) du tu rp(2) fp(3)]
      suggestion_split_ext [OF assms]
    by simp
qed

theorem underscore_count_of_suggestion_witness:
  "audit_outcome ''QA_X1_20240101_Plan_Rev1.pdf'' =
     Inr (Accept ''QA'' (Some ''X1'') ''20240101'' ''Plan_Rev1'' None []) \<and>
   finalize_fields ''QA'' (Some ''X1'') ''20240101'' ''Plan_Rev1'' None [] =
     ((Some ''X1'', ''Plan'', ''Rev1''), []) \<and>
   audit_filename ''QA_X1_20240101_Plan_Rev1.pdf'' =
     Inr (Some ''QA_X1_20240101_Plan_Rev1.pdf'', [], False) \<and>
   fst (split_ext ''QA_X1_20240101_Plan_Rev1.pdf'') = ''QA_X1_20240101_Plan_Rev1'' \<and>
   count_list ''QA_X1_20240101_Plan_Rev1'' (CHR ''_'') = 4"
  using underscore_count_of_suggestion [OF outcome_qa_plan fields_qa_plan]
    outcome_qa_plan fields_qa_plan
  by (simp add: canonical_stem_def id_segment_def truthy_def split_ext_def strip_def lstrip_def
        rstrip_def is_space_def)

text \<open>
  The claim as stated fails at \<open>LG_20240101.pdf\<close>, a name of a family without identifier
  and with no title: the suggested stem has 2 underscores.
\<close>

theorem underscore_count_counterexample:
  "audit_outcome ''LG_20240101.pdf'' = Inr (Accept ''LG'' None ''20240101'' [] None []) \<and>
   audit_filename ''LG_20240101.pdf'' =
     Inr (Some ''LG_20240101_Rev0.pdf'',
          [''Added Rev0 (missing revision element).'', underscore_note], True) \<and>
   fst (split_ext ''LG_20240101_Rev0.pdf'') = ''LG_20240101_Rev0'' \<and>
   count_list ''LG_20240101_Rev0'' (CHR ''_'') = 2"
  using outcome_lg_no_title audit_lg_no_title by (simp add: split_ext_def)

text \<open>
  Claim C7. A name that, without its surrounding white space, starts with one of the
  exemption prefixes is skipped: no suggestion, no notes, \<open>changed = false\<close>.
\<close>

theorem exemption_short_circuit:
  assumes "list_ex (startswith (strip n)) IGNORE_PREFIXES"
  shows "audit_filename n = Inr (None, [], False)"
  using assms by (rule audit_exempt)

theorem exemption_short_circuit_witness:
  "list_ex (startswith (strip ''I-PAY_invoice_0001.pdf'')) IGNORE_PREFIXES \<and>
   audit_filename ''I-PAY_invoice_0001.pdf'' = Inr (None, [], False)"
  using exemption_short_circuit [OF ipay_exempt] ipay_exempt by simp

text \<open>
  Claim C8. At \<open>LG_20240101_Scan_pdfpdf_Rev1.pdf\<close> both passes of
  \<open>strip_spurious_extensions\<close> change the title, and each appends the note
  \<open>Removed extra extension token from title.\<close>: the note stands twice in the result.
\<close>

theorem extension_note_appended_twice:
  "audit_filename ''LG_20240101_Scan_pdfpdf_Rev1.pdf'' =
     Inr (Some ''LG_20240101_Scan_Rev1.pdf'',
          [''Removed extra extension token from title.'',
           ''Removed internal underscores from title.'',
           ''Removed extra extension token from title.'',
           ''Normalized title.''],
          True) \<and>
   count_list [''Removed extra extension token from title.'',
               ''Removed internal underscores from title.'',
               ''Removed extra extension token from title.'',
               ''Normalized title.'']
              ''Removed extra extension token from title.'' = 2"
  using audit_scan_pdfpdf by simp

text \<open>
  Claim C9. \<open>audit_filename\<close> returns a triple for every name: no index into the tokens
  is out of range on any path, and every function of the model is total.
\<close>

theorem audit_filename_returns: "\<exists>sug notes ch. audit_filename n = Inr (sug, notes, ch)"
proof -
  obtain out where "audit_outcome n = Inr out" using audit_outcome_total by blast
  then have "\<exists>r. audit_filename n = Inr r"
    by (simp add: audit_filename_def bindE_def del: split_paired_Ex)
  then show ?thesis by (metis prod_cases3)
qed

end
